theory Spec2Isabelle
  imports Complex_Main "HOL-Library.Word" "HOL-Library.Sublist" "HOL-Library.AList"
begin

unbundle bit_operations_syntax

section \<open>Bit-accurate telemetry packet decoder (src/src/decoder.py)\<close>

text \<open>
  Python \<open>bytes\<close> are sequences of integers in \<open>0..255\<close>: a byte is an \<open>8 word\<close>, read
  as a Python int with \<open>uint\<close>. Python ints are unbounded: \<open>int\<close>. Bit positions and
  lengths, which the code never lets go negative, are \<open>nat\<close>.
\<close>

type_synonym byte = "8 word"

definition PACKET_SIZE :: nat where
  "PACKET_SIZE = 42"

text \<open>
  The exceptions of the decoder and of the test packet generator. The \<open>ValueError\<close>s of the
  source are kept apart by their message; \<open>IndexError\<close> is what indexing a buffer out of
  range raises.
\<close>

datatype error =
    NegativeCount            \<comment> \<open>\<open>ValueError('n must be >= 0')\<close>\<close>
  | NotEnoughBits int nat nat  \<comment> \<open>\<open>ValueError('Not enough bits: requested n at pos p, max m')\<close>\<close>
  | WrongLength nat          \<comment> \<open>\<open>ValueError('Expected 42 bytes, got len')\<close>\<close>
  | IndexError
  | NegativeWidth            \<comment> \<open>\<open>ValueError("nbits must be non-negative")\<close> of the writer\<close>
  | NotEnoughSpace int nat   \<comment> \<open>\<open>ValueError("Not enough space to write n bits at pos p")\<close>\<close>
  | PackedBitsMismatch nat   \<comment> \<open>\<open>AssertionError("Packed bits = n, expected 336")\<close>\<close>

subsection \<open>BitReader\<close>

record BitReader =
  data :: "byte list"
  bit_pos :: nat
  max_bits :: nat

definition BitReader_init :: "byte list \<Rightarrow> BitReader" where
  "BitReader_init d = \<lparr>data = d, bit_pos = 0, max_bits = length d * 8\<rparr>"

text \<open>
  The \<open>while remain:\<close> loop of \<open>read_bits\<close>. It returns the result (or the exception) together
  with the bit position it has reached, since the position is mutated in place as it goes.
\<close>

function read_loop :: "byte list \<Rightarrow> nat \<Rightarrow> int \<Rightarrow> nat \<Rightarrow> nat \<Rightarrow> (error + int) \<times> nat" where
  "read_loop d pos result shift remain =
     (if remain = 0 then (Inr result, pos)
      else
        let byte_idx = pos div 8;
            bit_in_byte = pos mod 8;
            available = 8 - bit_in_byte;
            take = min available remain
        in if length d \<le> byte_idx then (Inl IndexError, pos)
           else
             let byte_val = uint (d ! byte_idx);
                 mask = push_bit take 1 - 1;
                 chunk = (drop_bit bit_in_byte byte_val) AND mask
             in read_loop d (pos + take) (result OR push_bit shift chunk) (shift + take) (remain - take))"
  by pat_completeness auto
termination
  by (relation "measure (\<lambda>(d, pos, result, shift, remain). remain)") (auto simp: Let_def)

declare read_loop.simps [simp del]

text \<open>
  \<open>read_bits\<close> returns the value or the exception, and the reader as the call leaves it.
\<close>

definition read_bits :: "BitReader \<Rightarrow> int \<Rightarrow> (error + int) \<times> BitReader" where
  "read_bits r n =
     (if n = 0 then (Inr 0, r)
      else if n < 0 then (Inl NegativeCount, r)
      else if int (bit_pos r) + n > int (max_bits r)
        then (Inl (NotEnoughBits n (bit_pos r) (max_bits r)), r)
      else case read_loop (data r) (bit_pos r) 0 0 (nat n) of
             (res, pos') \<Rightarrow> (res, r\<lparr>bit_pos := pos'\<rparr>))"

definition bits_left :: "BitReader \<Rightarrow> int" where
  "bits_left r = int (max_bits r) - int (bit_pos r)"

text \<open>
  The states a reader can be in: \<open>max_bits\<close> is set once by the constructor and the position
  never passes it.
\<close>

definition reader_ok :: "BitReader \<Rightarrow> bool" where
  "reader_ok r \<longleftrightarrow> max_bits r = length (data r) * 8 \<and> bit_pos r \<le> max_bits r"

subsection \<open>The bit stream of a buffer, least-significant bit first\<close>

text \<open>
  Reference reading of a buffer as a stream of bits: bit \<open>i\<close> of the stream is bit \<open>i mod 8\<close>
  of byte \<open>i div 8\<close>, and \<open>bits_at d pos n\<close> is the unsigned number whose bit \<open>k\<close> is stream
  bit \<open>pos + k\<close>, for \<open>k < n\<close>.
\<close>

definition stream_bit :: "byte list \<Rightarrow> nat \<Rightarrow> bool" where
  "stream_bit d i \<longleftrightarrow> i div 8 < length d \<and> bit (d ! (i div 8)) (i mod 8)"

fun bits_at :: "byte list \<Rightarrow> nat \<Rightarrow> nat \<Rightarrow> int" where
  "bits_at d pos 0 = 0"
| "bits_at d pos (Suc n) = of_bool (stream_bit d pos) + 2 * bits_at d (Suc pos) n"

subsection \<open>Sign extension\<close>

text \<open>
  \<open>_sign_extend(value, bits)\<close>. Every call site passes a literal width (14, 16 or 30), so the
  width is a \<open>nat\<close>; the shift \<open>1 << (bits - 1)\<close> is never negative there.
\<close>

definition sign_extend :: "int \<Rightarrow> nat \<Rightarrow> int" where
  "sign_extend val bits =
     (let sign_bit = push_bit (bits - 1) (1::int);
          mask = push_bit bits 1 - 1;
          v = val AND mask
      in if v AND sign_bit \<noteq> 0 then v - push_bit bits 1 else v)"

subsection \<open>SystemFlags and TelemetryPacket\<close>

record SystemFlags =
  err :: bool
  wait :: bool
  ok :: bool
  ping :: bool
  command :: bool
  land :: bool
  eject :: bool
  start :: bool

definition from_byte :: "int \<Rightarrow> SystemFlags" where
  "from_byte b =
     \<lparr>err = (b AND 0x01 \<noteq> 0),
      wait = (b AND 0x02 \<noteq> 0),
      ok = (b AND 0x04 \<noteq> 0),
      ping = (b AND 0x08 \<noteq> 0),
      command = (b AND 0x10 \<noteq> 0),
      land = (b AND 0x20 \<noteq> 0),
      eject = (b AND 0x40 \<noteq> 0),
      start = (b AND 0x80 \<noteq> 0)\<rparr>"

definition to_string :: "SystemFlags \<Rightarrow> string" where
  "to_string s =
     map (\<lambda>f. if f then CHR ''1'' else CHR ''0'')
       [err s, wait s, ok s, ping s, command s, land s, eject s, start s]"

record TelemetryPacket =
  time_ms :: int
  temp_cC :: int
  pressPa :: int
  magX :: int
  magY :: int
  magZ :: int
  accelX :: int
  accelY :: int
  accelZ :: int
  gyroX :: int
  gyroY :: int
  gyroZ :: int
  lat_1e7 :: int
  lon_1e7 :: int
  flags :: SystemFlags
  radData0 :: int
  radData1 :: int
  radData2 :: int
  radData3 :: int

text \<open>
  The values of the dictionary \<open>to_dict\<close> builds are ints, but for \<open>'flags'\<close>, a string. The
  dictionary is kept as the list of its items in insertion order.
\<close>

datatype pyval = PyInt int | PyStr string

definition to_dict :: "TelemetryPacket \<Rightarrow> (string \<times> pyval) list" where
  "to_dict p =
     [(''time_ms'', PyInt (time_ms p)),
      (''temp_cC'', PyInt (temp_cC p)),
      (''pressPa'', PyInt (pressPa p)),
      (''magX'', PyInt (magX p)),
      (''magY'', PyInt (magY p)),
      (''magZ'', PyInt (magZ p)),
      (''accelX'', PyInt (accelX p)),
      (''accelY'', PyInt (accelY p)),
      (''accelZ'', PyInt (accelZ p)),
      (''gyroX'', PyInt (gyroX p)),
      (''gyroY'', PyInt (gyroY p)),
      (''gyroZ'', PyInt (gyroZ p)),
      (''lat_1e7'', PyInt (lat_1e7 p)),
      (''lon_1e7'', PyInt (lon_1e7 p)),
      (''flags'', PyStr (to_string (flags p))),
      (''radData0'', PyInt (radData0 p)),
      (''radData1'', PyInt (radData1 p)),
      (''radData2'', PyInt (radData2 p)),
      (''radData3'', PyInt (radData3 p))]"

subsection \<open>TelemetryDecoder\<close>

text \<open>
  Sequencing of reads on one reader: a read that raises ends the sequence with its exception,
  as the Python statements after it are not run.
\<close>

type_synonym 'a reading = "BitReader \<Rightarrow> (error + 'a) \<times> BitReader"

definition then_read :: "'a reading \<Rightarrow> ('a \<Rightarrow> 'b reading) \<Rightarrow> 'b reading" where
  "then_read m f r = (case m r of (Inl e, r') \<Rightarrow> (Inl e, r') | (Inr v, r') \<Rightarrow> f v r')"

definition done_read :: "'a \<Rightarrow> 'a reading" where
  "done_read v r = (Inr v, r)"

definition rd :: "int \<Rightarrow> int reading" where
  "rd n r = read_bits r n"

text \<open>
  The body of \<open>_decode_packet\<close> after the length check, in the order of the source's
  statements. The final \<open>logger.debug\<close> on leftover bits writes a debug line only and is left
  out; the reader is returned so that the leftover can be stated.
\<close>

definition decode_fields :: "TelemetryPacket reading" where
  "decode_fields =
     then_read (rd 24) (\<lambda>time_ms_v.
     then_read (rd 14) (\<lambda>temp_raw.
     then_read (rd 20) (\<lambda>pressPa_v.
     then_read (rd 30) (\<lambda>lat_raw.
     then_read (rd 30) (\<lambda>lon_raw.
     then_read (rd 2) (\<lambda>dummy.
     then_read (rd 16) (\<lambda>magX_raw.
     then_read (rd 16) (\<lambda>magY_raw.
     then_read (rd 16) (\<lambda>magZ_raw.
     then_read (rd 16) (\<lambda>accelX_raw.
     then_read (rd 16) (\<lambda>accelY_raw.
     then_read (rd 16) (\<lambda>accelZ_raw.
     then_read (rd 16) (\<lambda>gyroX_raw.
     then_read (rd 16) (\<lambda>gyroY_raw.
     then_read (rd 16) (\<lambda>gyroZ_raw.
     then_read (rd 8) (\<lambda>flags_byte.
     then_read (rd 16) (\<lambda>rad0.
     then_read (rd 16) (\<lambda>rad1.
     then_read (rd 16) (\<lambda>rad2.
     then_read (rd 16) (\<lambda>rad3.
     done_read
       \<lparr>time_ms = time_ms_v,
        temp_cC = sign_extend temp_raw 14,
        pressPa = pressPa_v,
        magX = sign_extend magX_raw 16,
        magY = sign_extend magY_raw 16,
        magZ = sign_extend magZ_raw 16,
        accelX = sign_extend accelX_raw 16,
        accelY = sign_extend accelY_raw 16,
        accelZ = sign_extend accelZ_raw 16,
        gyroX = sign_extend gyroX_raw 16,
        gyroY = sign_extend gyroY_raw 16,
        gyroZ = sign_extend gyroZ_raw 16,
        lat_1e7 = sign_extend lat_raw 30,
        lon_1e7 = sign_extend lon_raw 30,
        flags = from_byte flags_byte,
        radData0 = rad0,
        radData1 = rad1,
        radData2 = rad2,
        radData3 = rad3\<rparr>))))))))))))))))))))"

definition decode_packet :: "byte list \<Rightarrow> error + TelemetryPacket" where
  "decode_packet d =
     (if length d \<noteq> PACKET_SIZE then Inl (WrongLength (length d))
      else fst (decode_fields (BitReader_init d)))"

text \<open>
  \<open>_is_valid_packet\<close>. The two \<open>isinstance(..., int)\<close> tests hold of every packet here, whose
  fields are ints by their type.
\<close>

definition is_valid_packet :: "TelemetryPacket \<Rightarrow> bool" where
  "is_valid_packet pkt =
     (if pressPa pkt < 0 \<or> pressPa pkt \<ge> push_bit 20 1 then False
      else if \<bar>lat_1e7 pkt\<bar> > 90 * 10000000 then False
      else if \<bar>lon_1e7 pkt\<bar> > 180 * 10000000 then False
      else if \<bar>temp_cC pkt\<bar> > 100000 then False
      else True)"

text \<open>
  What the decoder writes to its logger. The text \<open>to_log_format\<close> renders with floating
  point is not modelled: a packet log line is the packet number and the packet.
\<close>

datatype log_record =
    Warning_file_too_small nat          \<comment> \<open>\<open>'File too small: %d bytes'\<close>\<close>
  | Info_decoding nat                   \<comment> \<open>\<open>'Decoding {count} packets from {path}'\<close>\<close>
  | Log_packet int TelemetryPacket      \<comment> \<open>\<open>'Packet {i + 1}: ...'\<close>, when \<open>log_packets\<close>\<close>
  | Warning_invalid_packet int          \<comment> \<open>\<open>'Invalid packet %d (sanity checks failed)'\<close>\<close>
  | Warning_failed_to_decode int error  \<comment> \<open>\<open>'Failed to decode packet %d: %s'\<close>\<close>
  | Info_decoded nat                    \<comment> \<open>\<open>'Successfully decoded {n} valid packets'\<close>\<close>

record TelemetryDecoder =
  log_packets :: bool

text \<open>
  \<open>decode_packet_with_log\<close>: the \<open>try\<close> catches every exception of \<open>_decode_packet\<close>, so the
  result is the log lines written and the packet or \<open>None\<close>. \<open>report_decoded\<close> is the rest of
  the \<open>try\<close> statement once \<open>_decode_packet\<close> has returned a packet (\<open>Inr\<close>) or raised
  (\<open>Inl\<close>): the validity test with its two branches, and the \<open>except\<close> clause.
\<close>

definition report_decoded ::
  "TelemetryDecoder \<Rightarrow> error + TelemetryPacket \<Rightarrow> int \<Rightarrow> log_record list \<times> TelemetryPacket option" where
  "report_decoded self res packet_index =
     (case res of
        Inr pkt \<Rightarrow>
          if is_valid_packet pkt
          then ((if log_packets self then [Log_packet (packet_index + 1) pkt] else []), Some pkt)
          else ([Warning_invalid_packet packet_index], None)
      | Inl e \<Rightarrow> ([Warning_failed_to_decode packet_index e], None))"

definition decode_packet_with_log ::
  "TelemetryDecoder \<Rightarrow> byte list \<Rightarrow> int \<Rightarrow> log_record list \<times> TelemetryPacket option" where
  "decode_packet_with_log self d packet_index = report_decoded self (decode_packet d) packet_index"

text \<open>
  \<open>decode_file\<close> on the bytes read from the file. One pass of the \<open>for i in range(count)\<close>
  loop takes the log and the packets so far to those after record \<open>i\<close>; a slice
  \<open>data[start:start + PACKET_SIZE]\<close> never raises. \<open>handle_record\<close> is the rest of the \<open>try\<close>
  statement of the loop body once \<open>_decode_packet(block)\<close> has returned a packet (\<open>Inr\<close>) or
  raised (\<open>Inl\<close>); in each case the loop goes on with the next \<open>i\<close>.
\<close>

definition handle_record ::
  "TelemetryDecoder \<Rightarrow> nat \<Rightarrow> error + TelemetryPacket \<Rightarrow> log_record list \<times> TelemetryPacket list
     \<Rightarrow> log_record list \<times> TelemetryPacket list" where
  "handle_record self i res st =
     (case res of
        Inr pkt \<Rightarrow>
          if is_valid_packet pkt
          then (fst st @ (if log_packets self then [Log_packet (int i + 1) pkt] else []),
                snd st @ [pkt])
          else (fst st @ [Warning_invalid_packet (int i)], snd st)
      | Inl e \<Rightarrow> (fst st @ [Warning_failed_to_decode (int i) e], snd st))"

definition decode_file_step ::
  "TelemetryDecoder \<Rightarrow> byte list \<Rightarrow> nat \<Rightarrow> log_record list \<times> TelemetryPacket list
     \<Rightarrow> log_record list \<times> TelemetryPacket list" where
  "decode_file_step self d i st =
     (let start_v = i * PACKET_SIZE;
          block = take PACKET_SIZE (drop start_v d)
      in handle_record self i (decode_packet block) st)"

definition decode_file ::
  "TelemetryDecoder \<Rightarrow> byte list \<Rightarrow> log_record list \<times> TelemetryPacket list" where
  "decode_file self d =
     (if length d < PACKET_SIZE then ([Warning_file_too_small (length d)], [])
      else
        let count = length d div PACKET_SIZE;
            st = fold (decode_file_step self d) [0..<count] ([Info_decoding count], [])
        in (fst st @ [Info_decoded (length (snd st))], snd st))"

subsection \<open>CSVExporter (src/src/csv_exporter.py)\<close>

definition HEADER :: "string list" where
  "HEADER =
     [''time_ms'', ''temp_cC'', ''pressPa'', ''magX'', ''magY'', ''magZ'',
      ''accelX'', ''accelY'', ''accelZ'', ''gyroX'', ''gyroY'', ''gyroZ'',
      ''lat_1e7'', ''lon_1e7'', ''flags'', ''radData0'', ''radData1'', ''radData2'', ''radData3'']"

text \<open>
  The row \<open>export\<close> hands to the CSV writer for one packet:
  \<open>{field: packet_dict.get(field, '') for field in self.HEADER}\<close>.
\<close>

definition row_data :: "TelemetryPacket \<Rightarrow> (string \<times> pyval) list" where
  "row_data packet =
     (let packet_dict = to_dict packet
      in map (\<lambda>field. (field, case map_of packet_dict field of Some v \<Rightarrow> v | None \<Rightarrow> PyStr [])) HEADER)"

subsection \<open>The record layout of the specification\<close>

text \<open>
  The layout as the specification words it, to compare the decoder with: two's complement of
  an unsigned value of \<open>bits\<close> bits (if bit \<open>bits - 1\<close> is set the result is the value minus
  \<open>2 ^ bits\<close>, else the value), the flags by direct bit tests, and each field at its offset in
  the order time 24u, temp 14s, press 20u, lat 30s, lon 30s, dummy 2, mag 3 x 16s,
  accel 3 x 16s, gyro 3 x 16s, flags 8, rad 4 x 16u.
\<close>

definition spec_signExtend :: "int \<Rightarrow> nat \<Rightarrow> int" where
  "spec_signExtend val bits = (if bit val (bits - 1) then val - 2 ^ bits else val)"

definition spec_flags :: "int \<Rightarrow> SystemFlags" where
  "spec_flags b =
     \<lparr>err = bit b 0, wait = bit b 1, ok = bit b 2, ping = bit b 3,
      command = bit b 4, land = bit b 5, eject = bit b 6, start = bit b 7\<rparr>"

definition spec_layout_packet :: "byte list \<Rightarrow> TelemetryPacket" where
  "spec_layout_packet d =
     \<lparr>time_ms = bits_at d 0 24,
      temp_cC = spec_signExtend (bits_at d 24 14) 14,
      pressPa = bits_at d 38 20,
      magX = spec_signExtend (bits_at d 120 16) 16,
      magY = spec_signExtend (bits_at d 136 16) 16,
      magZ = spec_signExtend (bits_at d 152 16) 16,
      accelX = spec_signExtend (bits_at d 168 16) 16,
      accelY = spec_signExtend (bits_at d 184 16) 16,
      accelZ = spec_signExtend (bits_at d 200 16) 16,
      gyroX = spec_signExtend (bits_at d 216 16) 16,
      gyroY = spec_signExtend (bits_at d 232 16) 16,
      gyroZ = spec_signExtend (bits_at d 248 16) 16,
      lat_1e7 = spec_signExtend (bits_at d 58 30) 30,
      lon_1e7 = spec_signExtend (bits_at d 88 30) 30,
      flags = spec_flags (bits_at d 264 8),
      radData0 = bits_at d 272 16,
      radData1 = bits_at d 288 16,
      radData2 = bits_at d 304 16,
      radData3 = bits_at d 320 16\<rparr>"

section \<open>The test packet generator (src/test-decoder script)\<close>

subsection \<open>BitWriter\<close>

record BitWriter =
  buf :: "byte list"
  wbit_pos :: nat
  size_bits :: nat

definition BitWriter_init :: "nat \<Rightarrow> BitWriter" where
  "BitWriter_init size_bytes =
     \<lparr>buf = replicate size_bytes 0, wbit_pos = 0, size_bits = size_bytes * 8\<rparr>"

text \<open>
  The \<open>while remaining:\<close> loop of \<open>write_bits\<close>, on the buffer and the position it mutates.
  \<open>self.buf[byte_idx] |= (chunk << bit_in_byte) & 0xFF\<close> stores a value below 256, so the store
  itself cannot raise.
\<close>

function write_loop :: "byte list \<Rightarrow> nat \<Rightarrow> int \<Rightarrow> nat \<Rightarrow> error option \<times> byte list \<times> nat" where
  "write_loop b pos v remaining =
     (if remaining = 0 then (None, b, pos)
      else
        let byte_idx = pos div 8;
            bit_in_byte = pos mod 8;
            free = 8 - bit_in_byte;
            to_write = min free remaining;
            mask = push_bit to_write 1 - 1;
            chunk = v AND mask
        in if length b \<le> byte_idx then (Some IndexError, b, pos)
           else
             write_loop
               (b[byte_idx := word_of_int (uint (b ! byte_idx) OR (push_bit bit_in_byte chunk AND 0xFF))])
               (pos + to_write) (drop_bit to_write v) (remaining - to_write))"
  by pat_completeness auto
termination
  by (relation "measure (\<lambda>(b, pos, v, remaining). remaining)") (auto simp: Let_def)

declare write_loop.simps [simp del]

definition write_bits :: "BitWriter \<Rightarrow> int \<Rightarrow> int \<Rightarrow> error option \<times> BitWriter" where
  "write_bits bw val nbits =
     (if nbits = 0 then (None, bw)
      else if nbits < 0 then (Some NegativeWidth, bw)
      else if int (wbit_pos bw) + nbits > int (size_bits bw)
        then (Some (NotEnoughSpace nbits (wbit_pos bw)), bw)
      else
        let v = (if nbits < 64 then val AND (push_bit (nat nbits) 1 - 1) else val)
        in case write_loop (buf bw) (wbit_pos bw) v (nat nbits) of
             (res, b', pos') \<Rightarrow> (res, bw\<lparr>buf := b', wbit_pos := pos'\<rparr>))"

definition get_bytes :: "BitWriter \<Rightarrow> byte list" where
  "get_bytes bw = buf bw"

definition to_twos_complement :: "int \<Rightarrow> nat \<Rightarrow> int" where
  "to_twos_complement val nbits = (let mask = push_bit nbits 1 - 1 in val AND mask)"

subsection \<open>The packet generator\<close>

text \<open>
  The values \<open>generate_test_packet\<close> draws with \<open>random\<close> and the flags byte it assembles
  are the parameters here, so that the packing itself can be run on any field values.
\<close>

record field_values =
  v_temp_cC :: int
  v_pressPa :: int
  v_mag :: "int list"
  v_accel :: "int list"
  v_gyro :: "int list"
  v_lat_1e7 :: int
  v_lon_1e7 :: int
  v_flags :: int
  v_rad_data :: "int list"

text \<open>Successive \<open>bw.write_bits(value, nbits)\<close> calls; the first that raises ends them.\<close>

fun write_all :: "BitWriter \<Rightarrow> (int \<times> int) list \<Rightarrow> error option \<times> BitWriter" where
  "write_all bw [] = (None, bw)"
| "write_all bw ((val, nbits) # ws) =
     (case write_bits bw val nbits of
        (Some e, bw') \<Rightarrow> (Some e, bw')
      | (None, bw') \<Rightarrow> write_all bw' ws)"

definition PACKET_SIZE_BYTES :: nat where
  "PACKET_SIZE_BYTES = 42"

definition generate_test_packet :: "int \<Rightarrow> field_values \<Rightarrow> error + byte list" where
  "generate_test_packet time_ms_v vals =
     (let bw = BitWriter_init PACKET_SIZE_BYTES;
          writes =
            [(time_ms_v, 24),
             (to_twos_complement (v_temp_cC vals) 14, 14),
             (v_pressPa vals AND (push_bit 20 1 - 1), 20)]
            @ map (\<lambda>v. (to_twos_complement v 16, 16)) (v_mag vals)
            @ map (\<lambda>v. (to_twos_complement v 16, 16)) (v_accel vals)
            @ map (\<lambda>v. (to_twos_complement v 16, 16)) (v_gyro vals)
            @ [(to_twos_complement (v_lat_1e7 vals) 30, 30),
               (to_twos_complement (v_lon_1e7 vals) 30, 30),
               (v_flags vals AND 0xFF, 8)]
            @ map (\<lambda>r. (r AND 0xFFFF, 16)) (v_rad_data vals)
            @ [(0x0, 2)]
      in case write_all bw writes of
           (Some e, bw') \<Rightarrow> Inl e
         | (None, bw') \<Rightarrow>
             if wbit_pos bw' \<noteq> PACKET_SIZE_BYTES * 8 then Inl (PackedBitsMismatch (wbit_pos bw'))
             else Inr (get_bytes bw'))"

section \<open>Packet filtering (src/src/filters.py)\<close>

subsection \<open>Filter settings\<close>

text \<open>
  \<open>self.time_settings\<close> is a dictionary with at most the keys \<open>'max_jump_ms'\<close> (an int) and
  \<open>'allow_wrap'\<close> (a bool): a record of two optional values, empty when both are absent.
  \<open>dict.update\<close> lets the keys of its argument win.
\<close>

record time_dict =
  max_jump_ms :: "int option"
  allow_wrap :: "bool option"

definition time_dict_empty :: "time_dict \<Rightarrow> bool" where
  "time_dict_empty ts \<longleftrightarrow> max_jump_ms ts = None \<and> allow_wrap ts = None"

definition time_dict_update :: "time_dict \<Rightarrow> time_dict \<Rightarrow> time_dict" where
  "time_dict_update ts new =
     \<lparr>max_jump_ms = (case max_jump_ms new of Some m \<Rightarrow> Some m | None \<Rightarrow> max_jump_ms ts),
      allow_wrap = (case allow_wrap new of Some w \<Rightarrow> Some w | None \<Rightarrow> allow_wrap ts)\<rparr>"

text \<open>
  A channel limit is a Python float: a finite value, which is a rational number, an infinity
  or a NaN. Python compares an int with a float exactly, and every comparison with a NaN is
  false.
\<close>

datatype pyfloat = Finite rat | PosInf | NegInf | NaN

fun int_lt_float :: "int \<Rightarrow> pyfloat \<Rightarrow> bool" where
  "int_lt_float v (Finite q) = (of_int v < q)"
| "int_lt_float v PosInf = True"
| "int_lt_float v NegInf = False"
| "int_lt_float v NaN = False"

fun int_gt_float :: "int \<Rightarrow> pyfloat \<Rightarrow> bool" where
  "int_gt_float v (Finite q) = (of_int v > q)"
| "int_gt_float v PosInf = False"
| "int_gt_float v NegInf = True"
| "int_gt_float v NaN = False"

text \<open>The dictionary of one channel, with at most the keys \<open>'min'\<close> and \<open>'max'\<close>.\<close>

record limit_dict =
  lim_min :: "pyfloat option"
  lim_max :: "pyfloat option"

definition limit_dict_update :: "limit_dict \<Rightarrow> limit_dict \<Rightarrow> limit_dict" where
  "limit_dict_update l new =
     \<lparr>lim_min = (case lim_min new of Some x \<Rightarrow> Some x | None \<Rightarrow> lim_min l),
      lim_max = (case lim_max new of Some x \<Rightarrow> Some x | None \<Rightarrow> lim_max l)\<rparr>"

text \<open>
  \<open>self.channel_limits\<close> is kept as the list of its items in insertion order, which is the
  order the channel filter visits them in; \<open>manual_drops\<close> is a set of ints.
\<close>

record FilterManager =
  time_settings :: time_dict
  channel_limits :: "(string \<times> limit_dict) list"
  manual_drops :: "int set"

definition FilterManager_init :: FilterManager where
  "FilterManager_init =
     \<lparr>time_settings = \<lparr>max_jump_ms = None, allow_wrap = None\<rparr>,
      channel_limits = [], manual_drops = {}\<rparr>"

text \<open>
  Of the configuration manager the filter uses the two dictionaries that
  \<open>get_time_settings()\<close> and \<open>get_channel_limits()\<close> return.
\<close>

record ConfigManager =
  get_time_settings :: time_dict
  get_channel_limits :: "(string \<times> limit_dict) list"

subsection \<open>The manual drop list\<close>

text \<open>
  Python strings are modelled by their ASCII characters. \<open>str.strip\<close> removes the characters
  \<open>str.isspace\<close> accepts: tab, line feed, vertical tab, form feed, carriage return, the four
  separators \<open>0x1c..0x1f\<close> and the space.
\<close>

definition is_space :: "char \<Rightarrow> bool" where
  "is_space c \<longleftrightarrow> (of_char c :: nat) \<in> {9, 10, 11, 12, 13, 28, 29, 30, 31, 32}"

definition strip :: "string \<Rightarrow> string" where
  "strip s = rev (dropWhile is_space (rev (dropWhile is_space s)))"

text \<open>\<open>s.split(sep)\<close> for a one-character separator: at least one piece, also of the empty string.\<close>

fun split_on :: "char \<Rightarrow> string \<Rightarrow> string list" where
  "split_on sep [] = [[]]"
| "split_on sep (c # cs) =
     (if c = sep then [] # split_on sep cs
      else case split_on sep cs of
             w # ws \<Rightarrow> (c # w) # ws
           | [] \<Rightarrow> [[c]])"

definition is_digit :: "char \<Rightarrow> bool" where
  "is_digit c \<longleftrightarrow> 48 \<le> (of_char c :: nat) \<and> (of_char c :: nat) \<le> 57"

definition digit_val :: "char \<Rightarrow> int" where
  "digit_val c = int (of_char c) - 48"

text \<open>
  \<open>int(s)\<close> on a string, base 10: surrounding whitespace is dropped, one sign is allowed, and
  the digits may be grouped by single underscores between digits. \<open>None\<close> is the
  \<open>ValueError\<close>. \<open>parse_digits cs prev acc\<close> reads the digits, \<open>prev\<close> telling whether the
  character before was a digit.
\<close>

fun parse_digits :: "string \<Rightarrow> bool \<Rightarrow> int \<Rightarrow> int option" where
  "parse_digits [] prev acc = (if prev then Some acc else None)"
| "parse_digits (c # cs) prev acc =
     (if is_digit c then parse_digits cs True (10 * acc + digit_val c)
      else if c = CHR ''_'' \<and> prev then parse_digits cs False acc
      else None)"

definition py_int :: "string \<Rightarrow> int option" where
  "py_int s =
     (case strip s of
        [] \<Rightarrow> None
      | c # cs \<Rightarrow>
          if c = CHR ''-'' then map_option uminus (parse_digits cs False 0)
          else if c = CHR ''+'' then parse_digits cs False 0
          else parse_digits (c # cs) False 0)"

text \<open>
  One pass of the loop of \<open>_parse_packet_list\<close>: the set of drops after the item. The
  warnings it logs for a malformed item are not modelled. \<open>item.split('-', 1)\<close> of an item
  that holds a \<open>-\<close> is the part before the first \<open>-\<close> and the part after it.
\<close>

definition parse_item :: "int set \<Rightarrow> string \<Rightarrow> int set" where
  "parse_item drops item0 =
     (let item = strip item0
      in if item = [] then drops
         else if CHR ''-'' \<in> set item then
           (let start_s = takeWhile (\<lambda>c. c \<noteq> CHR ''-'') item;
                end_s = drop 1 (dropWhile (\<lambda>c. c \<noteq> CHR ''-'') item)
            in case py_int (strip start_s) of
                 None \<Rightarrow> drops
               | Some start_idx \<Rightarrow>
                   (case py_int (strip end_s) of
                      None \<Rightarrow> drops
                    | Some end_idx \<Rightarrow> drops \<union> {start_idx..end_idx}))
         else
           (case py_int item of
              None \<Rightarrow> drops
            | Some n \<Rightarrow> insert n drops))"

definition parse_packet_list :: "string \<Rightarrow> int set" where
  "parse_packet_list drop_list =
     fold (\<lambda>item drops. parse_item drops item) (split_on CHR '','' drop_list) {}"

text \<open>The part of \<open>load_filters\<close> that reads \<open>drop_packets\<close> of the \<open>manual\<close> section.\<close>

definition load_drop_packets :: "FilterManager \<Rightarrow> string \<Rightarrow> FilterManager" where
  "load_drop_packets fm drop_list = fm\<lparr>manual_drops := parse_packet_list drop_list\<rparr>"

subsection \<open>The three filters\<close>

text \<open>
  \<open>_passes_time_filter\<close>. \<open>max_jump\<close> defaults to \<open>float('inf')\<close>, which no difference
  exceeds. The debug lines the filters log are not modelled.
\<close>

definition passes_time_filter :: "FilterManager \<Rightarrow> TelemetryPacket \<Rightarrow> int option \<Rightarrow> nat \<Rightarrow> bool" where
  "passes_time_filter fm packet prev_time idx =
     (case prev_time of
        None \<Rightarrow> True
      | Some prev \<Rightarrow>
          if time_dict_empty (time_settings fm) then True
          else
            let time_diff0 = time_ms packet - prev;
                wrap = (case allow_wrap (time_settings fm) of Some w \<Rightarrow> w | None \<Rightarrow> False);
                time_diff = (if time_diff0 < 0 \<and> wrap then time_diff0 + push_bit 24 1 else time_diff0)
            in if (case max_jump_ms (time_settings fm) of Some max_jump \<Rightarrow> time_diff > max_jump
                                                        | None \<Rightarrow> False) then False
               else if time_diff < 0 \<and> \<not> wrap then False
               else True)"

text \<open>
  \<open>_passes_channel_filter\<close>, over the items of \<open>self.channel_limits\<close>. Of the values of
  \<open>to_dict\<close> only that of \<open>'flags'\<close> is a string, and that channel is skipped before any
  comparison.
\<close>

fun channel_loop :: "(string \<times> limit_dict) list \<Rightarrow> (string \<times> pyval) list \<Rightarrow> bool" where
  "channel_loop [] packet_dict = True"
| "channel_loop ((channel, limits) # rest) packet_dict =
     (case map_of packet_dict channel of
        None \<Rightarrow> channel_loop rest packet_dict
      | Some val \<Rightarrow>
          if channel = ''flags'' then channel_loop rest packet_dict
          else
            (case val of
               PyStr s \<Rightarrow> channel_loop rest packet_dict
             | PyInt v \<Rightarrow>
                 if (case lim_min limits of Some lo \<Rightarrow> int_lt_float v lo | None \<Rightarrow> False) then False
                 else if (case lim_max limits of Some hi \<Rightarrow> int_gt_float v hi | None \<Rightarrow> False) then False
                 else channel_loop rest packet_dict))"

definition passes_channel_filter :: "FilterManager \<Rightarrow> TelemetryPacket \<Rightarrow> bool" where
  "passes_channel_filter fm packet = channel_loop (channel_limits fm) (to_dict packet)"

text \<open>\<open>_merge_config_settings\<close>: both dictionaries take the configuration manager's entries.\<close>

definition merge_channel ::
  "string \<times> limit_dict \<Rightarrow> (string \<times> limit_dict) list \<Rightarrow> (string \<times> limit_dict) list" where
  "merge_channel item cl =
     (case item of (channel, limits) \<Rightarrow>
        AList.update channel
          (limit_dict_update
             (case map_of cl channel of Some l \<Rightarrow> l | None \<Rightarrow> \<lparr>lim_min = None, lim_max = None\<rparr>)
             limits)
          cl)"

definition merge_config_settings :: "FilterManager \<Rightarrow> ConfigManager \<Rightarrow> FilterManager" where
  "merge_config_settings fm config_manager =
     fm\<lparr>time_settings := time_dict_update (time_settings fm) (get_time_settings config_manager),
        channel_limits := fold merge_channel (get_channel_limits config_manager) (channel_limits fm)\<rparr>"

text \<open>
  The \<open>for idx, packet in enumerate(packets)\<close> loop of \<open>apply_filters\<close>, on the index, the
  \<open>prev_time\<close> and the \<open>filtered_packets\<close> it carries; it returns the last two.
\<close>

fun filter_loop ::
  "FilterManager \<Rightarrow> nat \<Rightarrow> int option \<Rightarrow> TelemetryPacket list \<Rightarrow> TelemetryPacket list
     \<Rightarrow> TelemetryPacket list \<times> int option" where
  "filter_loop fm idx prev_time [] filtered_packets = (filtered_packets, prev_time)"
| "filter_loop fm idx prev_time (packet # rest) filtered_packets =
     (if \<not> passes_time_filter fm packet prev_time idx
        then filter_loop fm (Suc idx) prev_time rest filtered_packets
      else if \<not> passes_channel_filter fm packet
        then filter_loop fm (Suc idx) prev_time rest filtered_packets
      else if int idx \<in> manual_drops fm
        then filter_loop fm (Suc idx) prev_time rest filtered_packets
      else filter_loop fm (Suc idx) (Some (time_ms packet)) rest (filtered_packets @ [packet]))"

text \<open>\<open>apply_filters\<close> returns the filtered packets; the manager it has merged into comes with them.\<close>

definition apply_filters ::
  "FilterManager \<Rightarrow> TelemetryPacket list \<Rightarrow> ConfigManager \<Rightarrow> FilterManager \<times> TelemetryPacket list" where
  "apply_filters fm packets config_manager =
     (if packets = [] then (fm, packets)
      else
        let fm' = merge_config_settings fm config_manager
        in (fm', fst (filter_loop fm' 0 None packets [])))"

subsection \<open>Drop lists of the specification\<close>

text \<open>
  The drop lists the specification speaks of, to state the manual stage with: a list of
  tokens separated by commas, a token being a literal index or a range \<open>a-b\<close>, written in
  decimal. A literal stands for its index and a range for the positions \<open>a..b\<close>, both ends
  included.
\<close>

datatype drop_token = Literal nat | Range nat nat

function decimal :: "nat \<Rightarrow> string" where
  "decimal n = (if n < 10 then [char_of (48 + n)] else decimal (n div 10) @ [char_of (48 + n mod 10)])"
  by pat_completeness auto
termination
  by (relation "measure id") auto

declare decimal.simps [simp del]

fun render_token :: "drop_token \<Rightarrow> string" where
  "render_token (Literal n) = decimal n"
| "render_token (Range a b) = decimal a @ ''-'' @ decimal b"

fun join_comma :: "string list \<Rightarrow> string" where
  "join_comma [] = []"
| "join_comma [s] = s"
| "join_comma (s # t # ss) = s @ '','' @ join_comma (t # ss)"

fun token_positions :: "drop_token \<Rightarrow> int set" where
  "token_positions (Literal n) = {int n}"
| "token_positions (Range a b) = {int a..int b}"

text \<open>The ASCII digits, which are no whitespace, sign or separator.\<close>

definition plain_digit :: "char \<Rightarrow> bool" where
  "plain_digit c \<longleftrightarrow> is_digit c \<and> \<not> is_space c \<and> c \<noteq> CHR ''-'' \<and> c \<noteq> CHR ''+'' \<and> c \<noteq> CHR '',''"

subsection \<open>Example data\<close>

text \<open>A packet with the given time and every other field zero, for the examples below.\<close>

definition example_packet :: "int \<Rightarrow> TelemetryPacket" where
  "example_packet t =
     \<lparr>time_ms = t, temp_cC = 0, pressPa = 0,
      magX = 0, magY = 0, magZ = 0, accelX = 0, accelY = 0, accelZ = 0,
      gyroX = 0, gyroY = 0, gyroZ = 0, lat_1e7 = 0, lon_1e7 = 0,
      flags = from_byte 0,
      radData0 = 0, radData1 = 0, radData2 = 0, radData3 = 0\<rparr>"

section \<open>Properties of the bit reader\<close>

lemma bits_at_nonneg: "0 \<le> bits_at d pos n"
  by (induction n arbitrary: pos) auto

lemma bits_at_less: "bits_at d pos n < 2 ^ n"
proof (induction n arbitrary: pos)
  case 0
  show ?case by simp
next
  case (Suc n)
  have "bits_at d (Suc pos) n < 2 ^ n" by (rule Suc.IH)
  then show ?case by (simp add: of_bool_def)
qed

lemma bits_at_split:
  "bits_at d pos (n1 + n2) = bits_at d pos n1 + 2 ^ n1 * bits_at d (pos + n1) n2"
  by (induction n1 arbitrary: pos) (simp_all add: algebra_simps)

lemma bit_bits_at: "bit (bits_at d pos n) k \<longleftrightarrow> k < n \<and> stream_bit d (pos + k)"
proof (induction n arbitrary: pos k)
  case 0
  show ?case by simp
next
  case (Suc n)
  show ?case
  proof (cases k)
    case 0
    then show ?thesis by (simp add: bit_0)
  next
    case (Suc j)
    have "bit (of_bool (stream_bit d pos) + 2 * bits_at d (Suc pos) n) (Suc j)
          = bit (bits_at d (Suc pos) n) j"
      by (simp add: bit_Suc of_bool_def)
    then show ?thesis using Suc Suc.IH [of "Suc pos" j] by simp
  qed
qed

lemma div8_same: "pos mod 8 + k < 8 \<Longrightarrow> (pos + k) div 8 = pos div (8::nat)"
proof -
  assume a: "pos mod 8 + k < 8"
  have "pos + k = (pos mod 8 + k) + (pos div 8) * 8" by simp
  then have "(pos + k) div 8 = ((pos mod 8 + k) + (pos div 8) * 8) div 8" by simp
  also have "\<dots> = pos div 8 + (pos mod 8 + k) div 8" by (rule div_mult_self1) simp
  finally show ?thesis using a by simp
qed

lemma mod8_same: "pos mod 8 + k < 8 \<Longrightarrow> (pos + k) mod 8 = pos mod (8::nat) + k"
proof -
  assume a: "pos mod 8 + k < 8"
  have "(pos + k) mod 8 = (pos mod 8 + k) mod 8" by (simp add: mod_add_left_eq)
  then show ?thesis using a by simp
qed

lemma chunk_bits_at:
  assumes "pos div 8 < length d" and "tk \<le> 8 - pos mod 8"
  shows "(drop_bit (pos mod 8) (uint (d ! (pos div 8)))) AND (push_bit tk 1 - 1) = bits_at d pos tk"
proof (rule bit_eqI)
  fix k
  have m: "push_bit tk (1::int) - 1 = mask tk"
    by (simp add: mask_eq_exp_minus_1 push_bit_eq_mult)
  show "bit ((drop_bit (pos mod 8) (uint (d ! (pos div 8)))) AND (push_bit tk 1 - 1)) k
        = bit (bits_at d pos tk) k"
  proof (cases "k < tk")
    case False
    then show ?thesis unfolding m by (simp add: bit_and_iff bit_mask_iff bit_bits_at)
  next
    case True
    with assms have k: "pos mod 8 + k < 8" by simp
    have "(pos + k) div 8 = pos div 8" "(pos + k) mod 8 = pos mod 8 + k"
      using k by (rule div8_same, rule mod8_same)
    then show ?thesis using True assms k unfolding m
      by (simp add: bit_and_iff bit_mask_iff bit_bits_at bit_drop_bit_eq bit_uint_iff stream_bit_def)
  qed
qed

lemma or_push_bits_at:
  "bits_at d pos n1 OR push_bit n1 (bits_at d (pos + n1) n2) = bits_at d pos (n1 + n2)"
proof (rule bit_eqI)
  fix k
  show "bit (bits_at d pos n1 OR push_bit n1 (bits_at d (pos + n1) n2)) k = bit (bits_at d pos (n1 + n2)) k"
    by (auto simp: bit_or_iff bit_push_bit_iff_int bit_bits_at)
qed

lemma read_loop_bits_at:
  "pos + remain \<le> length d * 8 \<Longrightarrow>
   read_loop d pos result shift remain
     = (Inr (result OR push_bit shift (bits_at d pos remain)), pos + remain)"
proof (induction d pos result shift remain rule: read_loop.induct)
  case (1 d pos result shift remain)
  show ?case
  proof (cases "remain = 0")
    case True
    then show ?thesis by (simp add: read_loop.simps)
  next
    case False
    define tk where "tk = min (8 - pos mod 8) remain"
    have t: "0 < tk" "tk \<le> remain" "tk \<le> 8 - pos mod 8"
      using False by (auto simp: tk_def)
    have idx: "pos div 8 < length d"
      using "1.prems" False by auto
    have ch: "(drop_bit (pos mod 8) (uint (d ! (pos div 8)))) AND (push_bit tk 1 - 1) = bits_at d pos tk"
      using idx t(3) by (rule chunk_bits_at)
    note ih = "1.IH" [OF False refl refl refl refl _ refl refl refl, folded tk_def, unfolded ch]
    have nidx: "\<not> length d \<le> pos div 8" using idx by simp
    have step: "read_loop d pos result shift remain
       = read_loop d (pos + tk) (result OR push_bit shift (bits_at d pos tk)) (shift + tk) (remain - tk)"
      by (subst read_loop.simps) (simp only: Let_def tk_def [symmetric] ch False nidx if_False)
    have le: "pos + tk + (remain - tk) \<le> length d * 8"
      using "1.prems" t by simp
    have "read_loop d (pos + tk) (result OR push_bit shift (bits_at d pos tk)) (shift + tk) (remain - tk)
       = (Inr ((result OR push_bit shift (bits_at d pos tk)) OR push_bit (shift + tk) (bits_at d (pos + tk) (remain - tk))), pos + tk + (remain - tk))"
      by (rule ih [OF nidx le])
    also have "(result OR push_bit shift (bits_at d pos tk)) OR push_bit (shift + tk) (bits_at d (pos + tk) (remain - tk))
       = result OR push_bit shift (bits_at d pos tk OR push_bit tk (bits_at d (pos + tk) (remain - tk)))"
      by (simp only: push_bit_or push_bit_push_bit or.assoc add.commute [of shift tk])
    also have "bits_at d pos tk OR push_bit tk (bits_at d (pos + tk) (remain - tk)) = bits_at d pos remain"
      using or_push_bits_at [of d pos tk "remain - tk"] t by simp
    also have "pos + tk + (remain - tk) = pos + remain" using t by simp
    finally show ?thesis using step by simp
  qed
qed


lemma read_bits_value:
  assumes "reader_ok r" and "0 \<le> n" and "n \<le> bits_left r"
  shows "read_bits r n
         = (Inr (bits_at (data r) (bit_pos r) (nat n)), r\<lparr>bit_pos := bit_pos r + nat n\<rparr>)"
proof (cases "n = 0")
  case True
  then show ?thesis by (simp add: read_bits_def)
next
  case False
  have le: "bit_pos r + nat n \<le> length (data r) * 8"
    using assms by (simp add: reader_ok_def bits_left_def)
  have "read_loop (data r) (bit_pos r) 0 0 (nat n)
        = (Inr (0 OR push_bit 0 (bits_at (data r) (bit_pos r) (nat n))), bit_pos r + nat n)"
    using le by (rule read_loop_bits_at)
  then show ?thesis using False assms
    by (simp add: read_bits_def bits_left_def)
qed

lemma read_bits_reader_ok:
  assumes "reader_ok r" and "0 \<le> n" and "n \<le> bits_left r"
  shows "reader_ok (snd (read_bits r n))"
  using assms by (simp add: read_bits_value) (simp add: reader_ok_def bits_left_def)

text \<open>
  C6. When fewer than \<open>n\<close> bits remain, \<open>read_bits\<close> fails with the out-of-range error and
  leaves the reader exactly as it was, so that any later read gives what it would have given
  without the failing call; when at least \<open>n\<close> bits remain it returns a value, never an error.
\<close>

theorem read_bits_out_of_range:
  assumes "reader_ok r" and "0 \<le> n"
  shows "(bits_left r < n \<longrightarrow>
            read_bits r n = (Inl (NotEnoughBits n (bit_pos r) (max_bits r)), r)
          \<and> read_bits (snd (read_bits r n)) m = read_bits r m)
       \<and> (n \<le> bits_left r \<longrightarrow>
            (\<exists>v. fst (read_bits r n) = Inr v) \<and> reader_ok (snd (read_bits r n)))"
proof (intro conjI impI)
  assume less: "bits_left r < n"
  then show fail: "read_bits r n = (Inl (NotEnoughBits n (bit_pos r) (max_bits r)), r)"
    using assms by (auto simp: read_bits_def bits_left_def reader_ok_def)
  show "read_bits (snd (read_bits r n)) m = read_bits r m"
    by (simp add: fail)
next
  assume "n \<le> bits_left r"
  with assms show "\<exists>v. fst (read_bits r n) = Inr v"
    by (simp add: read_bits_value)
next
  assume "n \<le> bits_left r"
  with assms show "reader_ok (snd (read_bits r n))"
    by (rule read_bits_reader_ok)
qed

theorem read_bits_out_of_range_witness:
  "read_bits (BitReader_init [0xAB, 0xCD]) 17
     = (Inl (NotEnoughBits 17 0 16), BitReader_init [0xAB, 0xCD])
   \<and> read_bits (snd (read_bits (BitReader_init [0xAB, 0xCD]) 17)) 16
     = read_bits (BitReader_init [0xAB, 0xCD]) 16
   \<and> (\<exists>v. fst (read_bits (BitReader_init [0xAB, 0xCD]) 16) = Inr v)
   \<and> reader_ok (snd (read_bits (BitReader_init [0xAB, 0xCD]) 16))"
  using read_bits_out_of_range [of "BitReader_init [0xAB, 0xCD]" 17 16]
        read_bits_out_of_range [of "BitReader_init [0xAB, 0xCD]" 16 0]
  by (simp add: reader_ok_def BitReader_init_def bits_left_def)

text \<open>
  C7. With \<open>n1 + n2\<close> bits remaining, a read of \<open>n1\<close> bits giving \<open>v1\<close> followed by a read
  of \<open>n2\<close> bits giving \<open>v2\<close> satisfies \<open>v1 + v2 * 2 ^ n1 = v\<close>, where \<open>v\<close> is what one read of
  \<open>n1 + n2\<close> bits gives from the same start; both ways end in the same reader, and each
  read moves the position forward by its bit count, so \<open>bits_left\<close> goes down by that much.
\<close>

theorem read_bits_split:
  assumes "reader_ok r" and "0 \<le> n1" and "0 \<le> n2" and "n1 + n2 \<le> bits_left r"
  shows "\<exists>v1 r1 v2 r2 v.
           read_bits r n1 = (Inr v1, r1) \<and> read_bits r1 n2 = (Inr v2, r2)
         \<and> read_bits r (n1 + n2) = (Inr v, r2)
         \<and> v1 + v2 * 2 ^ nat n1 = v
         \<and> bit_pos r1 = bit_pos r + nat n1 \<and> bit_pos r2 = bit_pos r1 + nat n2
         \<and> bits_left r1 = bits_left r - n1 \<and> bits_left r2 = bits_left r1 - n2
         \<and> data r2 = data r \<and> max_bits r2 = max_bits r"
proof -
  define r1 where "r1 = r\<lparr>bit_pos := bit_pos r + nat n1\<rparr>"
  define r2 where "r2 = r1\<lparr>bit_pos := bit_pos r1 + nat n2\<rparr>"
  have one: "read_bits r n1 = (Inr (bits_at (data r) (bit_pos r) (nat n1)), r1)"
    unfolding r1_def using assms by (intro read_bits_value) simp_all
  have ok1: "reader_ok r1"
    using read_bits_reader_ok [of r n1] assms by (simp add: one)
  have left1: "bits_left r1 = bits_left r - n1"
    using assms by (simp add: r1_def bits_left_def)
  have two: "read_bits r1 n2 = (Inr (bits_at (data r1) (bit_pos r1) (nat n2)), r2)"
    unfolding r2_def using ok1 assms left1 by (intro read_bits_value) simp_all
  have r2: "r2 = r\<lparr>bit_pos := bit_pos r + nat (n1 + n2)\<rparr>"
    using assms by (simp add: r2_def r1_def nat_add_distrib)
  have both: "read_bits r (n1 + n2) = (Inr (bits_at (data r) (bit_pos r) (nat (n1 + n2))), r2)"
    unfolding r2 using assms by (intro read_bits_value) simp_all
  have val: "bits_at (data r) (bit_pos r) (nat n1) + bits_at (data r1) (bit_pos r1) (nat n2) * 2 ^ nat n1
             = bits_at (data r) (bit_pos r) (nat (n1 + n2))"
    using assms by (simp add: r1_def nat_add_distrib bits_at_split)
  have left2: "bits_left r2 = bits_left r1 - n2"
    using assms by (simp add: r2_def bits_left_def)
  show ?thesis
    using one two both val left1 left2
    by (intro exI conjI) (assumption | simp add: r1_def r2_def)+
qed

theorem read_bits_split_witness:
  "\<exists>v1 r1 v2 r2 v.
     read_bits (BitReader_init [0xAB, 0xCD, 0xEF]) 5 = (Inr v1, r1) \<and> read_bits r1 13 = (Inr v2, r2)
   \<and> read_bits (BitReader_init [0xAB, 0xCD, 0xEF]) (5 + 13) = (Inr v, r2)
   \<and> v1 + v2 * 2 ^ nat 5 = v
   \<and> bit_pos r1 = bit_pos (BitReader_init [0xAB, 0xCD, 0xEF]) + nat 5 \<and> bit_pos r2 = bit_pos r1 + nat 13
   \<and> bits_left r1 = bits_left (BitReader_init [0xAB, 0xCD, 0xEF]) - 5 \<and> bits_left r2 = bits_left r1 - 13
   \<and> data r2 = data (BitReader_init [0xAB, 0xCD, 0xEF])
   \<and> max_bits r2 = max_bits (BitReader_init [0xAB, 0xCD, 0xEF])"
  by (rule read_bits_split) (simp_all add: reader_ok_def BitReader_init_def bits_left_def)

section \<open>Properties of the packet decoder\<close>

lemma and_mask_id: "0 \<le> v \<Longrightarrow> v < 2 ^ n \<Longrightarrow> v AND (push_bit n 1 - 1) = (v::int)"
proof -
  assume a: "0 \<le> v" "v < 2 ^ n"
  have "push_bit n (1::int) - 1 = mask n"
    by (simp add: mask_eq_exp_minus_1 push_bit_eq_mult)
  moreover have "take_bit n v = v" using a by (simp add: take_bit_int_eq_self)
  ultimately show ?thesis by (simp add: take_bit_eq_mask)
qed

lemma sign_extend_spec:
  assumes "0 \<le> v" and "v < 2 ^ n"
  shows "sign_extend v n = spec_signExtend v n"
proof -
  have "(v AND push_bit (n - 1) 1 \<noteq> 0) = bit v (n - 1)"
    by (simp add: bit_iff_and_push_bit_not_eq_0)
  then show ?thesis
    using and_mask_id [OF assms]
    by (simp add: sign_extend_def spec_signExtend_def Let_def push_bit_eq_mult)
qed

lemma from_byte_spec: "from_byte b = spec_flags b"
proof -
  have "(b AND 1 \<noteq> 0) = bit b 0" using bit_iff_and_push_bit_not_eq_0 [of b 0] by simp
  moreover have "(b AND 2 \<noteq> 0) = bit b 1" using bit_iff_and_push_bit_not_eq_0 [of b 1] by simp
  moreover have "(b AND 4 \<noteq> 0) = bit b 2" using bit_iff_and_push_bit_not_eq_0 [of b 2] by simp
  moreover have "(b AND 8 \<noteq> 0) = bit b 3" using bit_iff_and_push_bit_not_eq_0 [of b 3] by simp
  moreover have "(b AND 16 \<noteq> 0) = bit b 4" using bit_iff_and_push_bit_not_eq_0 [of b 4] by simp
  moreover have "(b AND 32 \<noteq> 0) = bit b 5" using bit_iff_and_push_bit_not_eq_0 [of b 5] by simp
  moreover have "(b AND 64 \<noteq> 0) = bit b 6" using bit_iff_and_push_bit_not_eq_0 [of b 6] by simp
  moreover have "(b AND 128 \<noteq> 0) = bit b 7" using bit_iff_and_push_bit_not_eq_0 [of b 7] by simp
  ultimately show ?thesis by (simp add: from_byte_def spec_flags_def)
qed

lemma rd_at:
  assumes "p + nat n \<le> length d * 8" and "0 \<le> n"
  shows "rd n \<lparr>data = d, bit_pos = p, max_bits = length d * 8\<rparr>
         = (Inr (bits_at d p (nat n)), \<lparr>data = d, bit_pos = p + nat n, max_bits = length d * 8\<rparr>)"
  using assms read_bits_value [of "\<lparr>data = d, bit_pos = p, max_bits = length d * 8\<rparr>" n]
  by (simp add: rd_def reader_ok_def bits_left_def)

lemma then_rd_at:
  assumes "p + nat n \<le> length d * 8" and "0 \<le> n"
  shows "then_read (rd n) f \<lparr>data = d, bit_pos = p, max_bits = length d * 8\<rparr>
         = f (bits_at d p (nat n)) \<lparr>data = d, bit_pos = p + nat n, max_bits = length d * 8\<rparr>"
  by (simp add: then_read_def rd_at [OF assms])

lemma decode_fields_layout:
  assumes "length d = 42"
  shows "decode_fields (BitReader_init d)
         = (Inr (spec_layout_packet d), \<lparr>data = d, bit_pos = 336, max_bits = 336\<rparr>)"
proof -
  have len: "length d * 8 = 336" using assms by simp
  have s14: "sign_extend (bits_at d p 14) 14 = spec_signExtend (bits_at d p 14) 14" for p
    by (rule sign_extend_spec [OF bits_at_nonneg bits_at_less])
  have s16: "sign_extend (bits_at d p 16) 16 = spec_signExtend (bits_at d p 16) 16" for p
    by (rule sign_extend_spec [OF bits_at_nonneg bits_at_less])
  have s30: "sign_extend (bits_at d p 30) 30 = spec_signExtend (bits_at d p 30) 30" for p
    by (rule sign_extend_spec [OF bits_at_nonneg bits_at_less])
  have step: "\<And>p n f. p + nat n \<le> 336 \<Longrightarrow> 0 \<le> n \<Longrightarrow>
      then_read (rd n) f \<lparr>data = d, bit_pos = p, max_bits = 336\<rparr>
         = f (bits_at d p (nat n)) \<lparr>data = d, bit_pos = p + nat n, max_bits = 336\<rparr>"
    using then_rd_at [of _ _ d] by (simp add: len)
  show ?thesis
    unfolding decode_fields_def BitReader_init_def len
    by (simp add: step done_read_def s14 s16 s30 from_byte_spec spec_layout_packet_def)
qed

text \<open>
  C1. For a record of 42 bytes the decoder returns the packet of the specification's layout:
  each field is the LSB-first value of its bits at its offset in the order time 24u, temp 14s,
  press 20u, lat 30s, lon 30s, 2 dummy bits, mag, accel, gyro 3 x 16s each, flags 8, rad
  4 x 16u; the signed fields and only they are sign-extended, and flag \<open>k\<close> is bit \<open>k\<close> of
  the flags byte.
\<close>

theorem decode_packet_layout:
  assumes "length d = 42"
  shows "decode_packet d = Inr (spec_layout_packet d)"
  using assms by (simp add: decode_packet_def PACKET_SIZE_def decode_fields_layout)

theorem decode_packet_layout_witness:
  "decode_packet (replicate 42 0xFF) = Inr (spec_layout_packet (replicate 42 0xFF))
   \<and> spec_layout_packet (replicate 42 0xFF)
     = \<lparr>time_ms = 16777215, temp_cC = - 1, pressPa = 1048575,
        magX = - 1, magY = - 1, magZ = - 1, accelX = - 1, accelY = - 1, accelZ = - 1,
        gyroX = - 1, gyroY = - 1, gyroZ = - 1, lat_1e7 = - 1, lon_1e7 = - 1,
        flags = \<lparr>err = True, wait = True, ok = True, ping = True, command = True,
                 land = True, eject = True, start = True\<rparr>,
        radData0 = 65535, radData1 = 65535, radData2 = 65535, radData3 = 65535\<rparr>"
proof
  show "decode_packet (replicate 42 0xFF) = Inr (spec_layout_packet (replicate 42 0xFF))"
    by (rule decode_packet_layout) simp
  show "spec_layout_packet (replicate 42 0xFF)
     = \<lparr>time_ms = 16777215, temp_cC = - 1, pressPa = 1048575,
        magX = - 1, magY = - 1, magZ = - 1, accelX = - 1, accelY = - 1, accelZ = - 1,
        gyroX = - 1, gyroY = - 1, gyroZ = - 1, lat_1e7 = - 1, lon_1e7 = - 1,
        flags = \<lparr>err = True, wait = True, ok = True, ping = True, command = True,
                 land = True, eject = True, start = True\<rparr>,
        radData0 = 65535, radData1 = 65535, radData2 = 65535, radData3 = 65535\<rparr>"
    by code_simp
qed

lemma top_bit_iff:
  assumes "0 \<le> (v::int)" and "v < 2 * 2 ^ m"
  shows "bit v m \<longleftrightarrow> 2 ^ m \<le> v"
proof -
  have "take_bit (Suc m) v = v" using assms by (simp add: take_bit_int_eq_self)
  then have v: "v = 2 ^ m * of_bool (bit v m) + take_bit m v"
    using take_bit_Suc_from_most [of m v] by simp
  have b: "0 \<le> take_bit m v" "take_bit m v < 2 ^ m" by simp_all
  show ?thesis
  proof (cases "bit v m")
    case True
    then have "v = 2 ^ m + take_bit m v" using v by simp
    then have "2 ^ m \<le> v" using b(1) by linarith
    with True show ?thesis by simp
  next
    case False
    then have "v = take_bit m v" using v by simp
    then have "v < 2 ^ m" using b(2) by linarith
    with False show ?thesis by simp
  qed
qed

lemma spec_signExtend_bounds:
  assumes "0 \<le> v" and "v < 2 * 2 ^ m"
  shows "- (2 ^ m) \<le> spec_signExtend v (Suc m) \<and> spec_signExtend v (Suc m) < 2 ^ m"
  using assms top_bit_iff [OF assms] by (simp add: spec_signExtend_def)

lemma signed_field_bounds:
  "- (2 ^ m) \<le> spec_signExtend (bits_at d p (Suc m)) (Suc m)
   \<and> spec_signExtend (bits_at d p (Suc m)) (Suc m) < 2 ^ m"
  using bits_at_less [of d p "Suc m"] by (intro spec_signExtend_bounds bits_at_nonneg) simp

lemma layout_packet_valid: "is_valid_packet (spec_layout_packet d)"
proof -
  have t: "- (2 ^ 13) \<le> temp_cC (spec_layout_packet d) \<and> temp_cC (spec_layout_packet d) < 2 ^ 13"
    using signed_field_bounds [of 13 d 24] by (simp add: spec_layout_packet_def)
  have la: "- (2 ^ 29) \<le> lat_1e7 (spec_layout_packet d) \<and> lat_1e7 (spec_layout_packet d) < 2 ^ 29"
    using signed_field_bounds [of 29 d 58] by (simp add: spec_layout_packet_def)
  have lo: "- (2 ^ 29) \<le> lon_1e7 (spec_layout_packet d) \<and> lon_1e7 (spec_layout_packet d) < 2 ^ 29"
    using signed_field_bounds [of 29 d 88] by (simp add: spec_layout_packet_def)
  have p: "0 \<le> pressPa (spec_layout_packet d) \<and> pressPa (spec_layout_packet d) < 2 ^ 20"
    using bits_at_nonneg [of d 38 20] bits_at_less [of d 38 20] by (simp add: spec_layout_packet_def)
  show ?thesis using t la lo p by (auto simp: is_valid_packet_def abs_if)
qed

lemma decode_packet_cases:
  "decode_packet d = (if length d = 42 then Inr (spec_layout_packet d) else Inl (WrongLength (length d)))"
  by (simp add: decode_packet_def PACKET_SIZE_def decode_fields_layout)

lemma is_valid_packet_iff:
  "is_valid_packet p \<longleftrightarrow>
     0 \<le> pressPa p \<and> pressPa p < 2 ^ 20 \<and> \<bar>lat_1e7 p\<bar> \<le> 900000000
     \<and> \<bar>lon_1e7 p\<bar> \<le> 1800000000 \<and> \<bar>temp_cC p\<bar> \<le> 100000"
  by (auto simp: is_valid_packet_def)

text \<open>
  C5. Decoding one record fails with the wrong-length error exactly when the input is not 42
  bytes long, and a record of 42 bytes decodes to the packet of the layout. What
  \<open>_decode_packet\<close> gives is then reported: an exception as a failed decode with no packet; a
  packet that breaks a plausibility bound (pressure outside \<open>[0, 2^20)\<close>, \<open>|lat| > 900000000\<close>,
  \<open>|lon| > 1800000000\<close> or \<open>|temp| > 100000\<close>) as invalid, which is not the wrong-length
  failure, with no packet; any other packet is returned as it was decoded. The last equation
  gives the whole decode of a record: the bit widths of the layout keep every packet decoded
  from 42 bytes within the bounds, so such a record always yields its packet.
\<close>

theorem decode_packet_with_log_outcomes:
  "decode_packet_with_log self d idx = report_decoded self (decode_packet d) idx
   \<and> decode_packet d
       = (if length d \<noteq> 42 then Inl (WrongLength (length d)) else Inr (spec_layout_packet d))
   \<and> ((\<exists>n. decode_packet d = Inl (WrongLength n)) \<longleftrightarrow> length d \<noteq> 42)
   \<and> ((\<exists>e. decode_packet d = Inl e) \<longleftrightarrow> length d \<noteq> 42)
   \<and> report_decoded self (Inl e) idx = ([Warning_failed_to_decode idx e], None)
   \<and> report_decoded self (Inr pkt) idx
       = (if pressPa pkt < 0 \<or> 2 ^ 20 \<le> pressPa pkt
             \<or> \<bar>lat_1e7 pkt\<bar> > 900000000
             \<or> \<bar>lon_1e7 pkt\<bar> > 1800000000
             \<or> \<bar>temp_cC pkt\<bar> > 100000
          then ([Warning_invalid_packet idx], None)
          else ((if log_packets self then [Log_packet (idx + 1) pkt] else []), Some pkt))
   \<and> (is_valid_packet pkt \<longleftrightarrow>
         0 \<le> pressPa pkt \<and> pressPa pkt < 2 ^ 20 \<and> \<bar>lat_1e7 pkt\<bar> \<le> 900000000
         \<and> \<bar>lon_1e7 pkt\<bar> \<le> 1800000000 \<and> \<bar>temp_cC pkt\<bar> \<le> 100000)
   \<and> decode_packet_with_log self d idx
       = (if length d \<noteq> 42 then ([Warning_failed_to_decode idx (WrongLength (length d))], None)
          else ((if log_packets self then [Log_packet (idx + 1) (spec_layout_packet d)] else []),
                Some (spec_layout_packet d)))"
proof (intro conjI)
  show "decode_packet_with_log self d idx = report_decoded self (decode_packet d) idx"
    by (simp add: decode_packet_with_log_def)
  show "decode_packet d
       = (if length d \<noteq> 42 then Inl (WrongLength (length d)) else Inr (spec_layout_packet d))"
    by (simp add: decode_packet_cases)
  show "(\<exists>n. decode_packet d = Inl (WrongLength n)) \<longleftrightarrow> length d \<noteq> 42"
    by (simp add: decode_packet_cases)
  show "(\<exists>e. decode_packet d = Inl e) \<longleftrightarrow> length d \<noteq> 42"
    by (simp add: decode_packet_cases)
  show "report_decoded self (Inl e) idx = ([Warning_failed_to_decode idx e], None)"
    by (simp add: report_decoded_def)
  show v: "is_valid_packet pkt \<longleftrightarrow>
         0 \<le> pressPa pkt \<and> pressPa pkt < 2 ^ 20 \<and> \<bar>lat_1e7 pkt\<bar> \<le> 900000000
         \<and> \<bar>lon_1e7 pkt\<bar> \<le> 1800000000 \<and> \<bar>temp_cC pkt\<bar> \<le> 100000"
    by (rule is_valid_packet_iff)
  have "(pressPa pkt < 0 \<or> 2 ^ 20 \<le> pressPa pkt
             \<or> \<bar>lat_1e7 pkt\<bar> > 900000000
             \<or> \<bar>lon_1e7 pkt\<bar> > 1800000000
             \<or> \<bar>temp_cC pkt\<bar> > 100000) = (\<not> is_valid_packet pkt)"
    unfolding v by linarith
  then show "report_decoded self (Inr pkt) idx
       = (if pressPa pkt < 0 \<or> 2 ^ 20 \<le> pressPa pkt
             \<or> \<bar>lat_1e7 pkt\<bar> > 900000000
             \<or> \<bar>lon_1e7 pkt\<bar> > 1800000000
             \<or> \<bar>temp_cC pkt\<bar> > 100000
          then ([Warning_invalid_packet idx], None)
          else ((if log_packets self then [Log_packet (idx + 1) pkt] else []), Some pkt))"
    by (simp only: report_decoded_def sum.case) simp
  show "decode_packet_with_log self d idx
       = (if length d \<noteq> 42 then ([Warning_failed_to_decode idx (WrongLength (length d))], None)
          else ((if log_packets self then [Log_packet (idx + 1) (spec_layout_packet d)] else []),
                Some (spec_layout_packet d)))"
    using layout_packet_valid [of d]
    by (simp add: decode_packet_with_log_def report_decoded_def decode_packet_cases)
qed

theorem decode_packet_with_log_outcomes_witness:
  "decode_packet_with_log \<lparr>log_packets = False\<rparr> (replicate 41 0xFF) 7
     = ([Warning_failed_to_decode 7 (WrongLength 41)], None)
   \<and> decode_packet_with_log \<lparr>log_packets = False\<rparr> (replicate 42 0) 7
     = ([], Some (spec_layout_packet (replicate 42 0)))
   \<and> report_decoded \<lparr>log_packets = False\<rparr> (Inr ((example_packet 5)\<lparr>pressPa := 1048576\<rparr>)) 7
     = ([Warning_invalid_packet 7], None)
   \<and> report_decoded \<lparr>log_packets = False\<rparr> (Inr ((example_packet 5)\<lparr>pressPa := 1048575\<rparr>)) 7
     = ([], Some ((example_packet 5)\<lparr>pressPa := 1048575\<rparr>))
   \<and> report_decoded \<lparr>log_packets = False\<rparr> (Inr ((example_packet 5)\<lparr>lat_1e7 := 900000001\<rparr>)) 7
     = ([Warning_invalid_packet 7], None)
   \<and> report_decoded \<lparr>log_packets = False\<rparr> (Inr ((example_packet 5)\<lparr>lat_1e7 := - 900000000\<rparr>)) 7
     = ([], Some ((example_packet 5)\<lparr>lat_1e7 := - 900000000\<rparr>))
   \<and> report_decoded \<lparr>log_packets = False\<rparr> (Inr ((example_packet 5)\<lparr>lon_1e7 := - 1800000001\<rparr>)) 7
     = ([Warning_invalid_packet 7], None)
   \<and> report_decoded \<lparr>log_packets = False\<rparr> (Inr ((example_packet 5)\<lparr>temp_cC := 100001\<rparr>)) 7
     = ([Warning_invalid_packet 7], None)
   \<and> report_decoded \<lparr>log_packets = False\<rparr> (Inr ((example_packet 5)\<lparr>temp_cC := 100000\<rparr>)) 7
     = ([], Some ((example_packet 5)\<lparr>temp_cC := 100000\<rparr>))"
proof -
  note t = decode_packet_with_log_outcomes [where self = "\<lparr>log_packets = False\<rparr>" and idx = 7]
  note a = t [where d = "replicate 41 0xFF", THEN conjunct2, THEN conjunct2, THEN conjunct2,
              THEN conjunct2, THEN conjunct2, THEN conjunct2, THEN conjunct2]
  note b = t [where d = "replicate 42 0", THEN conjunct2, THEN conjunct2, THEN conjunct2,
              THEN conjunct2, THEN conjunct2, THEN conjunct2, THEN conjunct2]
  note r = t [where d = "[]", THEN conjunct2, THEN conjunct2, THEN conjunct2,
              THEN conjunct2, THEN conjunct2, THEN conjunct1]
  show ?thesis
    using a b
    by (simp add: r example_packet_def)
qed

section \<open>Properties of batch decoding\<close>

lemma decode_file_step_eq:
  "decode_file_step self d i st =
     (fst st @ fst (decode_packet_with_log self (take 42 (drop (i * 42) d)) (int i)),
      snd st @ (case snd (decode_packet_with_log self (take 42 (drop (i * 42) d)) (int i)) of
                  Some p \<Rightarrow> [p] | None \<Rightarrow> []))"
  by (simp add: decode_file_step_def handle_record_def decode_packet_with_log_def report_decoded_def
           PACKET_SIZE_def Let_def split: sum.split)

lemma fold_decode_file_step:
  "fold (decode_file_step self d) is st =
     (fst st @ concat (map (\<lambda>i. fst (decode_packet_with_log self (take 42 (drop (i * 42) d)) (int i))) is),
      snd st @ concat (map (\<lambda>i. case snd (decode_packet_with_log self (take 42 (drop (i * 42) d)) (int i)) of
                  Some p \<Rightarrow> [p] | None \<Rightarrow> []) is))"
proof (induction "is" arbitrary: st)
  case Nil
  show ?case by simp
next
  case (Cons i "is")
  have "fold (decode_file_step self d) (i # is) st
        = fold (decode_file_step self d) is (decode_file_step self d i st)"
    by simp
  also have "\<dots> =
     (fst (decode_file_step self d i st)
        @ concat (map (\<lambda>i. fst (decode_packet_with_log self (take 42 (drop (i * 42) d)) (int i))) is),
      snd (decode_file_step self d i st)
        @ concat (map (\<lambda>i. case snd (decode_packet_with_log self (take 42 (drop (i * 42) d)) (int i)) of
                  Some p \<Rightarrow> [p] | None \<Rightarrow> []) is))"
    by (rule Cons.IH)
  also have "\<dots> =
     (fst st @ concat (map (\<lambda>i. fst (decode_packet_with_log self (take 42 (drop (i * 42) d)) (int i))) (i # is)),
      snd st @ concat (map (\<lambda>i. case snd (decode_packet_with_log self (take 42 (drop (i * 42) d)) (int i)) of
                  Some p \<Rightarrow> [p] | None \<Rightarrow> []) (i # is)))"
    by (simp add: decode_file_step_eq)
  finally show ?case .
qed

lemma decode_file_eq:
  "decode_file self d =
     (if length d < 42 then ([Warning_file_too_small (length d)], [])
      else
        (Info_decoding (length d div 42)
           # concat (map (\<lambda>i. fst (decode_packet_with_log self (take 42 (drop (i * 42) d)) (int i)))
                       [0..<length d div 42])
           @ [Info_decoded (length (concat (map (\<lambda>i. case snd (decode_packet_with_log self (take 42 (drop (i * 42) d)) (int i)) of
                  Some p \<Rightarrow> [p] | None \<Rightarrow> []) [0..<length d div 42])))],
         concat (map (\<lambda>i. case snd (decode_packet_with_log self (take 42 (drop (i * 42) d)) (int i)) of
                  Some p \<Rightarrow> [p] | None \<Rightarrow> []) [0..<length d div 42])))"
  by (simp add: decode_file_def PACKET_SIZE_def Let_def fold_decode_file_step)

lemma window_length:
  assumes "i < length d div 42"
  shows "length (take 42 (drop (i * 42) d)) = 42"
proof -
  have "Suc i \<le> length d div 42" using assms by simp
  then have "Suc i * 42 \<le> length d div 42 * 42" by (rule mult_le_mono1)
  also have "\<dots> \<le> length d" by simp
  finally show ?thesis by simp
qed

lemma decode_file_packets:
  "snd (decode_file self d)
     = map (\<lambda>i. spec_layout_packet (take 42 (drop (i * 42) d))) [0..<length d div 42]"
proof -
  have w: "(case snd (decode_packet_with_log self (take 42 (drop (i * 42) d)) (int i)) of
              Some p \<Rightarrow> [p] | None \<Rightarrow> []) = [spec_layout_packet (take 42 (drop (i * 42) d))]"
    if "i \<in> set [0..<length d div 42]" for i
  proof -
    have "length (take 42 (drop (i * 42) d)) = 42" using that by (intro window_length) simp
    then show ?thesis
      using layout_packet_valid [of "take 42 (drop (i * 42) d)"]
      by (simp add: decode_packet_with_log_def report_decoded_def decode_packet_cases)
  qed
  have "concat (map (\<lambda>i. case snd (decode_packet_with_log self (take 42 (drop (i * 42) d)) (int i)) of
                  Some p \<Rightarrow> [p] | None \<Rightarrow> []) [0..<length d div 42])
        = concat (map (\<lambda>i. [spec_layout_packet (take 42 (drop (i * 42) d))]) [0..<length d div 42])"
    using w by (intro arg_cong [where f = concat] map_cong refl) 
  also have "\<dots> = map (\<lambda>i. spec_layout_packet (take 42 (drop (i * 42) d))) [0..<length d div 42]"
    by (induction "length d div 42") simp_all
  finally show ?thesis
    by (cases "length d < 42") (simp_all add: decode_file_eq)
qed

lemma concat_windows:
  "length d = 42 * k \<Longrightarrow> concat (map (\<lambda>i. take 42 (drop (i * 42) d)) [0..<k]) = d"
proof (induction k arbitrary: d)
  case 0
  then show ?case by simp
next
  case (Suc k)
  have "[0..<Suc k] = 0 # map Suc [0..<k]"
    by (simp add: upt_conv_Cons map_Suc_upt del: upt_Suc)
  then have "concat (map (\<lambda>i. take 42 (drop (i * 42) d)) [0..<Suc k])
        = take 42 d @ concat (map (\<lambda>i. take 42 (drop (i * 42) (drop 42 d))) [0..<k])"
    by (simp add: comp_def add.commute del: upt_Suc)
  also have "concat (map (\<lambda>i. take 42 (drop (i * 42) (drop 42 d))) [0..<k]) = drop 42 d"
    using Suc.prems by (intro Suc.IH) simp
  finally show ?case by simp
qed

lemma handle_record_app:
  "handle_record self i res st
     = (fst st @ fst (handle_record self i res ([], [])),
        snd st @ snd (handle_record self i res ([], [])))"
  by (cases res) (simp_all add: handle_record_def)

lemma fold_handle_record:
  "fold (\<lambda>(i, res). handle_record self i res) rs st
     = (fst st @ concat (map (\<lambda>(i, res). fst (handle_record self i res ([], []))) rs),
        snd st @ concat (map (\<lambda>(i, res). snd (handle_record self i res ([], []))) rs))"
proof (induction rs arbitrary: st)
  case Nil
  show ?case by simp
next
  case (Cons r rs)
  obtain i res where r: "r = (i, res)" by (cases r)
  have "fold (\<lambda>(i, res). handle_record self i res) (r # rs) st
        = fold (\<lambda>(i, res). handle_record self i res) rs (handle_record self i res st)"
    by (simp add: r)
  also have "\<dots> =
     (fst (handle_record self i res st)
        @ concat (map (\<lambda>(i, res). fst (handle_record self i res ([], []))) rs),
      snd (handle_record self i res st)
        @ concat (map (\<lambda>(i, res). snd (handle_record self i res ([], []))) rs))"
    by (rule Cons.IH)
  also have "\<dots> =
     (fst st @ concat (map (\<lambda>(i, res). fst (handle_record self i res ([], []))) (r # rs)),
      snd st @ concat (map (\<lambda>(i, res). snd (handle_record self i res ([], []))) (r # rs)))"
    using handle_record_app [of self i res st] by (simp add: r)
  finally show ?case .
qed

lemma decode_file_as_fold:
  "fold (decode_file_step self d) is st
     = fold (\<lambda>(i, res). handle_record self i res)
         (map (\<lambda>i. (i, decode_packet (take 42 (drop (i * 42) d)))) is) st"
proof -
  have "(\<lambda>(i, res). handle_record self i res) \<circ> (\<lambda>i. (i, decode_packet (take 42 (drop (i * 42) d))))
        = decode_file_step self d"
    by (rule ext) (simp add: decode_file_step_def PACKET_SIZE_def Let_def fun_eq_iff)
  then show ?thesis by (simp add: fold_map)
qed

text \<open>
  C8. For a buffer whose length is a multiple of 42, \<open>decode_file\<close> cuts it into the
  consecutive 42-byte windows \<open>data[42 i : 42 i + 42]\<close>, which together are the buffer, and
  decodes each window on its own as the single-packet decode does. The loop is the fold of
  \<open>handle_record\<close> over the outcomes of \<open>_decode_packet\<close> on the windows, and for outcomes of
  any kind: a record whose decode raises leaves its warning in the log and no packet, one
  whose packet is invalid likewise, a valid one leaves its packet, and the fold over a list of
  outcomes is the concatenation, in the order of the records, of what each record leaves on
  its own, so that no failure ends the batch or touches another record.
\<close>

theorem decode_file_batch:
  assumes "length d = 42 * k"
  shows "snd (decode_file self d)
           = concat (map (\<lambda>i. case snd (decode_packet_with_log self (take 42 (drop (i * 42) d)) (int i)) of
                                Some p \<Rightarrow> [p] | None \<Rightarrow> []) [0..<k])
       \<and> (0 < k \<longrightarrow> fst (decode_file self d)
             = Info_decoding k
               # concat (map (\<lambda>i. fst (decode_packet_with_log self (take 42 (drop (i * 42) d)) (int i))) [0..<k])
               @ [Info_decoded (length (snd (decode_file self d)))])
       \<and> concat (map (\<lambda>i. take 42 (drop (i * 42) d)) [0..<k]) = d
       \<and> (\<forall>i<k. length (take 42 (drop (i * 42) d)) = 42)
       \<and> (0 < k \<longrightarrow> decode_file self d
             = (let st = fold (\<lambda>(i, res). handle_record self i res)
                           (map (\<lambda>i. (i, decode_packet (take 42 (drop (i * 42) d)))) [0..<k])
                           ([Info_decoding k], [])
                in (fst st @ [Info_decoded (length (snd st))], snd st)))
       \<and> handle_record self j (Inl e) st = (fst st @ [Warning_failed_to_decode (int j) e], snd st)
       \<and> handle_record self j (Inr pkt) st
           = (if is_valid_packet pkt
              then (fst st @ (if log_packets self then [Log_packet (int j + 1) pkt] else []),
                    snd st @ [pkt])
              else (fst st @ [Warning_invalid_packet (int j)], snd st))
       \<and> fold (\<lambda>(i, res). handle_record self i res) rs st
           = (fst st @ concat (map (\<lambda>(i, res). fst (handle_record self i res ([], []))) rs),
              snd st @ concat (map (\<lambda>(i, res). snd (handle_record self i res ([], []))) rs))"
proof (intro conjI impI allI)
  have k: "length d div 42 = k" using assms by simp
  show "snd (decode_file self d)
           = concat (map (\<lambda>i. case snd (decode_packet_with_log self (take 42 (drop (i * 42) d)) (int i)) of
                                Some p \<Rightarrow> [p] | None \<Rightarrow> []) [0..<k])"
    using assms by (cases "k = 0") (simp_all add: decode_file_eq)
  show "concat (map (\<lambda>i. take 42 (drop (i * 42) d)) [0..<k]) = d"
    using assms by (rule concat_windows)
  show "length (take 42 (drop (i * 42) d)) = 42" if "i < k" for i
    using that k by (intro window_length) simp
  show "fst (decode_file self d)
             = Info_decoding k
               # concat (map (\<lambda>i. fst (decode_packet_with_log self (take 42 (drop (i * 42) d)) (int i))) [0..<k])
               @ [Info_decoded (length (snd (decode_file self d)))]" if "0 < k"
    using that assms by (simp add: decode_file_eq)
  show "decode_file self d
             = (let st = fold (\<lambda>(i, res). handle_record self i res)
                           (map (\<lambda>i. (i, decode_packet (take 42 (drop (i * 42) d)))) [0..<k])
                           ([Info_decoding k], [])
                in (fst st @ [Info_decoded (length (snd st))], snd st))" if "0 < k"
  proof -
    have "\<not> length d < 42" using that assms by simp
    then show ?thesis
      unfolding decode_file_def PACKET_SIZE_def k decode_file_as_fold by simp
  qed
  show "handle_record self j (Inl e) st = (fst st @ [Warning_failed_to_decode (int j) e], snd st)"
    by (simp add: handle_record_def)
  show "handle_record self j (Inr pkt) st
           = (if is_valid_packet pkt
              then (fst st @ (if log_packets self then [Log_packet (int j + 1) pkt] else []),
                    snd st @ [pkt])
              else (fst st @ [Warning_invalid_packet (int j)], snd st))"
    by (simp add: handle_record_def)
  show "fold (\<lambda>(i, res). handle_record self i res) rs st
           = (fst st @ concat (map (\<lambda>(i, res). fst (handle_record self i res ([], []))) rs),
              snd st @ concat (map (\<lambda>(i, res). snd (handle_record self i res ([], []))) rs))"
    by (rule fold_handle_record)
qed

theorem decode_file_batch_witness:
  "snd (decode_file \<lparr>log_packets = False\<rparr> (replicate 42 0xFF @ replicate 42 0))
     = [spec_layout_packet (replicate 42 0xFF), spec_layout_packet (replicate 42 0)]
   \<and> fst (decode_file \<lparr>log_packets = False\<rparr> (replicate 42 0xFF @ replicate 42 0))
     = [Info_decoding 2, Info_decoded 2]
   \<and> fold (\<lambda>(i, res). handle_record \<lparr>log_packets = False\<rparr> i res)
        [(0, Inr (example_packet 10)),
         (1, Inl (WrongLength 41)),
         (2, Inr ((example_packet 20)\<lparr>pressPa := 1048576\<rparr>)),
         (3, Inl IndexError),
         (4, Inr (example_packet 30))]
        ([Info_decoding 5], [])
     = ([Info_decoding 5, Warning_failed_to_decode 1 (WrongLength 41), Warning_invalid_packet 2,
         Warning_failed_to_decode 3 IndexError],
        [example_packet 10, example_packet 30])"
proof -
  note t = decode_file_batch [where d = "replicate 42 0xFF @ replicate 42 0" and k = 2
                    and self = "\<lparr>log_packets = False\<rparr>"
                    and st = "([Info_decoding 5], [])"
                    and rs = "[(0, Inr (example_packet 10)),
         (1, Inl (WrongLength 41)),
         (2, Inr ((example_packet 20)\<lparr>pressPa := 1048576\<rparr>)),
         (3, Inl IndexError),
         (4, Inr (example_packet 30))]"]
  have len: "length (replicate 42 (0xFF::byte) @ replicate 42 0) = 42 * 2" by simp
  note c1 = t [OF len, THEN conjunct1]
  note c2 = t [OF len, THEN conjunct2, THEN conjunct1]
  note c8 = t [OF len, THEN conjunct2, THEN conjunct2, THEN conjunct2, THEN conjunct2,
               THEN conjunct2, THEN conjunct2, THEN conjunct2]
  have p: "snd (decode_file \<lparr>log_packets = False\<rparr> (replicate 42 0xFF @ replicate 42 0))
     = [spec_layout_packet (replicate 42 0xFF), spec_layout_packet (replicate 42 0)]"
    unfolding c1
    using layout_packet_valid [of "replicate 42 0xFF"] layout_packet_valid [of "replicate 42 0"]
    by (simp add: upt_rec decode_packet_with_log_def report_decoded_def decode_packet_cases)
  have l: "fst (decode_file \<lparr>log_packets = False\<rparr> (replicate 42 0xFF @ replicate 42 0))
     = [Info_decoding 2, Info_decoded 2]"
    using c2 layout_packet_valid [of "replicate 42 0xFF"] layout_packet_valid [of "replicate 42 0"]
    by (simp add: p upt_rec decode_packet_with_log_def report_decoded_def decode_packet_cases)
  have f: "fold (\<lambda>(i, res). handle_record \<lparr>log_packets = False\<rparr> i res)
        [(0, Inr (example_packet 10)),
         (1, Inl (WrongLength 41)),
         (2, Inr ((example_packet 20)\<lparr>pressPa := 1048576\<rparr>)),
         (3, Inl IndexError),
         (4, Inr (example_packet 30))]
        ([Info_decoding 5], [])
     = ([Info_decoding 5, Warning_failed_to_decode 1 (WrongLength 41), Warning_invalid_packet 2,
         Warning_failed_to_decode 3 IndexError],
        [example_packet 10, example_packet 30])"
    unfolding c8 by (simp add: handle_record_def is_valid_packet_def example_packet_def)
  from p l f show ?thesis by (intro conjI)
qed

text \<open>
  C10. For a buffer of any length \<open>decode_file\<close> returns, raising nothing: it handles exactly
  \<open>len div 42\<close> records, the windows \<open>data[42 i : 42 i + 42]\<close> for \<open>i < len div 42\<close>; a buffer
  of fewer than 42 bytes gives no packet and the one warning; and the bytes after the last
  whole record are not looked at, the result being that of the buffer cut to its whole
  records.
\<close>

theorem decode_file_any_length:
  "snd (decode_file self d)
     = map (\<lambda>i. spec_layout_packet (take 42 (drop (i * 42) d))) [0..<length d div 42]
   \<and> length (snd (decode_file self d)) = length d div 42
   \<and> (length d < 42 \<longrightarrow> decode_file self d = ([Warning_file_too_small (length d)], []))
   \<and> (42 \<le> length d \<longrightarrow>
        decode_file self d = decode_file self (take (42 * (length d div 42)) d))"
proof (intro conjI impI)
  show p: "snd (decode_file self d)
     = map (\<lambda>i. spec_layout_packet (take 42 (drop (i * 42) d))) [0..<length d div 42]"
    by (rule decode_file_packets)
  show "length (snd (decode_file self d)) = length d div 42"
    by (simp add: p)
  show "decode_file self d = ([Warning_file_too_small (length d)], [])" if "length d < 42"
    using that by (simp add: decode_file_eq)
  show "decode_file self d = decode_file self (take (42 * (length d div 42)) d)" if "42 \<le> length d"
  proof -
    define q where "q = length d div 42"
    have q: "42 * q \<le> length d" "0 < q" using that by (simp_all add: q_def div_greater_zero_iff)
    have len: "length (take (42 * q) d) div 42 = q" "\<not> length (take (42 * q) d) < 42"
      using q by (simp_all add: min_absorb2)
    have win: "take 42 (drop (i * 42) (take (42 * q) d)) = take 42 (drop (i * 42) d)"
      if "i \<in> set [0..<q]" for i
    proof -
      have "Suc i \<le> q" using that by simp
      then have "Suc i * 42 \<le> q * 42" by (rule mult_le_mono1)
      then have "42 \<le> 42 * q - i * 42" by simp
      then show ?thesis by (simp add: drop_take min_absorb1)
    qed
    have m1: "map (\<lambda>i. fst (decode_packet_with_log self (take 42 (drop (i * 42) (take (42 * q) d))) (int i))) [0..<q]
            = map (\<lambda>i. fst (decode_packet_with_log self (take 42 (drop (i * 42) d)) (int i))) [0..<q]"
      using win by (intro map_cong refl) simp
    have m2: "map (\<lambda>i. case snd (decode_packet_with_log self (take 42 (drop (i * 42) (take (42 * q) d))) (int i)) of
                  Some p \<Rightarrow> [p] | None \<Rightarrow> []) [0..<q]
            = map (\<lambda>i. case snd (decode_packet_with_log self (take 42 (drop (i * 42) d)) (int i)) of
                  Some p \<Rightarrow> [p] | None \<Rightarrow> []) [0..<q]"
      using win by (intro map_cong refl) simp
    have "decode_file self (take (42 * q) d) = decode_file self d"
      unfolding decode_file_eq [of self "take (42 * q) d"] decode_file_eq [of self d] len m1 m2
      using that by (simp add: q_def)
    then show ?thesis by (simp add: q_def)
  qed
qed

theorem decode_file_any_length_witness:
  "snd (decode_file \<lparr>log_packets = False\<rparr> (replicate 50 0xFF))
     = [spec_layout_packet (replicate 42 0xFF)]
   \<and> length (snd (decode_file \<lparr>log_packets = False\<rparr> (replicate 50 0xFF))) = 1
   \<and> decode_file \<lparr>log_packets = False\<rparr> (replicate 41 0xFF) = ([Warning_file_too_small 41], [])
   \<and> decode_file \<lparr>log_packets = False\<rparr> (replicate 50 0xFF)
     = decode_file \<lparr>log_packets = False\<rparr> (replicate 42 0xFF)"
  using decode_file_any_length [of "\<lparr>log_packets = False\<rparr>" "replicate 50 0xFF"]
        decode_file_any_length [of "\<lparr>log_packets = False\<rparr>" "replicate 41 0xFF"]
        decode_file_any_length [of "\<lparr>log_packets = False\<rparr>" "replicate 42 0xFF", THEN conjunct1]
  by simp

section \<open>The flags string of the CSV row\<close>

lemma row_data_flags: "map_of (row_data p) ''flags'' = Some (PyStr (to_string (flags p)))"
  by (simp add: row_data_def to_dict_def HEADER_def)

text \<open>
  C4 (as the code has it). The flags value in the row handed to the CSV writer is the string
  \<open>to_string\<close> gives: 8 characters, in LSB-to-MSB order, character \<open>k\<close> being \<open>1\<close> exactly
  when bit \<open>k\<close> of the flags byte is set, so that character 0 is the err flag (bit 0) and
  character 7 is the start flag (bit 7).
\<close>

theorem csv_flags_lsb_first:
  "map_of (row_data p) ''flags'' = Some (PyStr (to_string (flags p)))
   \<and> length (to_string (flags p)) = 8
   \<and> to_string (flags p)
     = [if err (flags p) then CHR ''1'' else CHR ''0'',
        if wait (flags p) then CHR ''1'' else CHR ''0'',
        if ok (flags p) then CHR ''1'' else CHR ''0'',
        if ping (flags p) then CHR ''1'' else CHR ''0'',
        if command (flags p) then CHR ''1'' else CHR ''0'',
        if land (flags p) then CHR ''1'' else CHR ''0'',
        if eject (flags p) then CHR ''1'' else CHR ''0'',
        if start (flags p) then CHR ''1'' else CHR ''0'']
   \<and> to_string (from_byte b) = map (\<lambda>k. if bit b k then CHR ''1'' else CHR ''0'') [0, 1, 2, 3, 4, 5, 6, 7]"
  by (simp add: row_data_flags to_string_def from_byte_spec spec_flags_def)

text \<open>
  The claim as stated fails: in a record whose flags byte is \<open>0x80\<close> only the start flag
  (bit 7) is set, and the string handed over is \<open>00000001\<close>, with the start flag last.
\<close>

theorem csv_flags_msb_first_counterexample:
  "\<exists>p. decode_packet (replicate 33 0 @ 0x80 # replicate 8 0) = Inr p
       \<and> start (flags p) \<and> \<not> err (flags p)
       \<and> map_of (row_data p) ''flags'' = Some (PyStr ''00000001'')
       \<and> to_string (flags p) ! 0 \<noteq> (if start (flags p) then CHR ''1'' else CHR ''0'')
       \<and> to_string (flags p) ! 7 \<noteq> (if err (flags p) then CHR ''1'' else CHR ''0'')"
proof -
  define p where "p = spec_layout_packet (replicate 33 0 @ 0x80 # replicate 8 0)"
  have d: "decode_packet (replicate 33 0 @ 0x80 # replicate 8 0) = Inr p"
    by (simp add: decode_packet_cases p_def)
  have f: "flags p = \<lparr>err = False, wait = False, ok = False, ping = False,
              command = False, land = False, eject = False, start = True\<rparr>"
    unfolding p_def by code_simp
  have "start (flags p)" "\<not> err (flags p)"
    by (simp_all add: f)
  moreover have "map_of (row_data p) ''flags'' = Some (PyStr ''00000001'')"
    by (simp add: row_data_flags to_string_def f)
  moreover have "to_string (flags p) ! 0 \<noteq> (if start (flags p) then CHR ''1'' else CHR ''0'')"
    by (simp add: to_string_def f)
  moreover have "to_string (flags p) ! 7 \<noteq> (if err (flags p) then CHR ''1'' else CHR ''0'')"
    by (simp add: to_string_def f)
  ultimately show ?thesis using d by blast
qed

section \<open>The test packet generator against the decoder\<close>

text \<open>
  C2 fails on the code. The generator packs mag, accel and gyro before lat and lon and puts the
  2 dummy bits last; the decoder reads lat, lon and the dummy bits before mag. With every field
  0 but \<open>magX = 1\<close>, the generator sets bit 58 of the record, which the decoder reads as the
  lowest bit of \<open>lat_1e7\<close>: the round trip returns \<open>magX = 0\<close> and \<open>lat_1e7 = 1\<close>.
\<close>

theorem generate_then_decode_mismatch:
  "\<exists>d p. generate_test_packet 0
            \<lparr>v_temp_cC = 0, v_pressPa = 0, v_mag = [1, 0, 0], v_accel = [0, 0, 0],
             v_gyro = [0, 0, 0], v_lat_1e7 = 0, v_lon_1e7 = 0, v_flags = 0,
             v_rad_data = [0, 0, 0, 0]\<rparr> = Inr d
         \<and> length d = 42
         \<and> decode_packet d = Inr p
         \<and> magX p = 0 \<and> lat_1e7 p = 1"
proof -
  have g: "generate_test_packet 0
            \<lparr>v_temp_cC = 0, v_pressPa = 0, v_mag = [1, 0, 0], v_accel = [0, 0, 0],
             v_gyro = [0, 0, 0], v_lat_1e7 = 0, v_lon_1e7 = 0, v_flags = 0,
             v_rad_data = [0, 0, 0, 0]\<rparr>
           = Inr (replicate 7 0 @ 4 # replicate 34 0)"
    by code_simp
  have d: "decode_packet (replicate 7 0 @ 4 # replicate 34 0)
           = Inr (spec_layout_packet (replicate 7 0 @ 4 # replicate 34 0))"
    by (simp add: decode_packet_cases)
  have m: "magX (spec_layout_packet (replicate 7 0 @ 4 # replicate 34 0)) = 0"
    by code_simp
  have l: "lat_1e7 (spec_layout_packet (replicate 7 0 @ 4 # replicate 34 0)) = 1"
    by code_simp
  have n: "length (replicate 7 (0::byte) @ 4 # replicate 34 0) = 42" by simp
  show ?thesis using g d m l n by blast
qed

section \<open>Properties of the filter pipeline\<close>

lemma filter_loop_append:
  "filter_loop fm idx prev (ps @ qs) acc
     = filter_loop fm (idx + length ps) (snd (filter_loop fm idx prev ps acc)) qs
         (fst (filter_loop fm idx prev ps acc))"
  by (induction ps arbitrary: idx prev acc) simp_all

lemma filter_loop_acc:
  "fst (filter_loop fm idx prev ps acc) = acc @ fst (filter_loop fm idx prev ps [])"
proof (induction ps arbitrary: idx prev acc)
  case Nil
  show ?case by simp
next
  case (Cons p ps)
  show ?case
    using Cons.IH [of "Suc idx" prev acc] Cons.IH [of "Suc idx" "Some (time_ms p)" "acc @ [p]"]
          Cons.IH [of "Suc idx" "Some (time_ms p)" "[p]"]
    by simp
qed

lemma filter_loop_subseq: "subseq (fst (filter_loop fm idx prev ps [])) ps"
proof (induction ps arbitrary: idx prev)
  case Nil
  show ?case by simp
next
  case (Cons p ps)
  have "subseq (p # fst (filter_loop fm (Suc idx) (Some (time_ms p)) ps [])) (p # ps)"
    using Cons.IH by simp
  moreover have "fst (filter_loop fm (Suc idx) (Some (time_ms p)) ps [p])
                 = p # fst (filter_loop fm (Suc idx) (Some (time_ms p)) ps [])"
    using filter_loop_acc [of fm "Suc idx" "Some (time_ms p)" ps "[p]"] by simp
  moreover have "subseq (fst (filter_loop fm (Suc idx) prev ps [])) (p # ps)"
    using Cons.IH [of "Suc idx" prev] by (rule list_emb_Cons)
  ultimately show ?case by simp
qed

lemma filter_loop_baseline:
  "prev = (if acc = [] then None else Some (time_ms (last acc))) \<Longrightarrow>
   snd (filter_loop fm idx prev ps acc)
     = (if fst (filter_loop fm idx prev ps acc) = [] then None
        else Some (time_ms (last (fst (filter_loop fm idx prev ps acc)))))"
proof (induction ps arbitrary: idx prev acc)
  case Nil
  then show ?case by simp
next
  case (Cons p ps)
  have "snd (filter_loop fm (Suc idx) (Some (time_ms p)) ps (acc @ [p]))
     = (if fst (filter_loop fm (Suc idx) (Some (time_ms p)) ps (acc @ [p])) = [] then None
        else Some (time_ms (last (fst (filter_loop fm (Suc idx) (Some (time_ms p)) ps (acc @ [p]))))))"
    by (rule Cons.IH) simp
  moreover have "snd (filter_loop fm (Suc idx) prev ps acc)
     = (if fst (filter_loop fm (Suc idx) prev ps acc) = [] then None
        else Some (time_ms (last (fst (filter_loop fm (Suc idx) prev ps acc)))))"
    using Cons.prems by (rule Cons.IH)
  ultimately show ?case by simp
qed

lemma filter_loop_step:
  assumes "i < length ps"
  shows "filter_loop fm 0 None (take (Suc i) ps) []
     = (if passes_time_filter fm (ps ! i) (snd (filter_loop fm 0 None (take i ps) [])) i
           \<and> passes_channel_filter fm (ps ! i) \<and> int i \<notin> manual_drops fm
        then (fst (filter_loop fm 0 None (take i ps) []) @ [ps ! i], Some (time_ms (ps ! i)))
        else filter_loop fm 0 None (take i ps) [])"
proof -
  have "take (Suc i) ps = take i ps @ [ps ! i]"
    using assms by (rule take_Suc_conv_app_nth)
  then have "filter_loop fm 0 None (take (Suc i) ps) []
     = filter_loop fm i (snd (filter_loop fm 0 None (take i ps) [])) [ps ! i]
         (fst (filter_loop fm 0 None (take i ps) []))"
    using assms by (simp add: filter_loop_append min_absorb2)
  then show ?thesis by simp
qed

lemma passes_time_filter_iff:
  assumes "\<not> time_dict_empty (time_settings fm)"
  shows "passes_time_filter fm p (Some prev) idx \<longleftrightarrow>
     \<not> ((\<exists>m. max_jump_ms (time_settings fm) = Some m
              \<and> (if time_ms p - prev < 0 \<and> allow_wrap (time_settings fm) = Some True
                  then time_ms p - prev + 2 ^ 24 else time_ms p - prev) > m)
        \<or> ((if time_ms p - prev < 0 \<and> allow_wrap (time_settings fm) = Some True
             then time_ms p - prev + 2 ^ 24 else time_ms p - prev) < 0
           \<and> allow_wrap (time_settings fm) \<noteq> Some True))"
proof -
  define wrap where "wrap = (case allow_wrap (time_settings fm) of Some w \<Rightarrow> w | None \<Rightarrow> False)"
  define d0 where "d0 = time_ms p - prev"
  define d where "d = (if d0 < 0 \<and> wrap then d0 + 2 ^ 24 else d0)"
  have w: "(allow_wrap (time_settings fm) = Some True) = wrap"
    unfolding wrap_def by (cases "allow_wrap (time_settings fm)") auto
  have pb: "push_bit 24 (1::int) = 2 ^ 24" by simp
  have lhs: "passes_time_filter fm p (Some prev) idx
        = (\<not> (case max_jump_ms (time_settings fm) of Some max_jump \<Rightarrow> d > max_jump | None \<Rightarrow> False)
           \<and> \<not> (d < 0 \<and> \<not> wrap))"
    using assms unfolding passes_time_filter_def Let_def pb
    by (simp only: option.case if_False wrap_def [symmetric] d0_def [symmetric] d_def [symmetric])
       (simp only: if_bool_eq_conj simp_thms, blast)
  have mj: "(case max_jump_ms (time_settings fm) of Some max_jump \<Rightarrow> d > max_jump | None \<Rightarrow> False)
        = (\<exists>m. max_jump_ms (time_settings fm) = Some m \<and> d > m)"
    by (cases "max_jump_ms (time_settings fm)") simp_all
  show ?thesis
    unfolding lhs mj w d0_def [symmetric] d_def [symmetric] by blast
qed

text \<open>
  C3 (as the code has it). In the loop of \<open>apply_filters\<close>, over any packet sequence and any
  settings: a packet met while no packet has been accepted yet passes the time stage, so the
  first packet always does; the baseline \<open>prev_time\<close> is at every point the time of the last
  packet accepted so far (by all three stages), not of the last packet seen; it changes only
  when a packet is accepted, to that packet's time; with time settings present, a packet
  with difference \<open>d\<close> to the baseline, to which \<open>2^24\<close> is added when \<open>d < 0\<close> and wrap is
  allowed, fails the time stage exactly when the adjusted difference exceeds
  \<open>max_jump_ms\<close> (never, when that is not set) or is negative with wrap not allowed; and
  with no time settings at all every packet passes the time stage.
\<close>

theorem time_stage:
  assumes "i < length ps"
  shows "passes_time_filter fm p None idx
    \<and> snd (filter_loop fm 0 None (take i ps) [])
        = (if fst (filter_loop fm 0 None (take i ps) []) = [] then None
           else Some (time_ms (last (fst (filter_loop fm 0 None (take i ps) [])))))
    \<and> filter_loop fm 0 None (take (Suc i) ps) []
        = (if passes_time_filter fm (ps ! i) (snd (filter_loop fm 0 None (take i ps) [])) i
              \<and> passes_channel_filter fm (ps ! i) \<and> int i \<notin> manual_drops fm
           then (fst (filter_loop fm 0 None (take i ps) []) @ [ps ! i], Some (time_ms (ps ! i)))
           else filter_loop fm 0 None (take i ps) [])
    \<and> (\<not> time_dict_empty (time_settings fm) \<longrightarrow>
         (passes_time_filter fm p (Some prev) idx \<longleftrightarrow>
            \<not> ((\<exists>m. max_jump_ms (time_settings fm) = Some m
                    \<and> (if time_ms p - prev < 0 \<and> allow_wrap (time_settings fm) = Some True
                        then time_ms p - prev + 2 ^ 24 else time_ms p - prev) > m)
               \<or> ((if time_ms p - prev < 0 \<and> allow_wrap (time_settings fm) = Some True
                    then time_ms p - prev + 2 ^ 24 else time_ms p - prev) < 0
                  \<and> allow_wrap (time_settings fm) \<noteq> Some True))))
    \<and> (time_dict_empty (time_settings fm) \<longrightarrow> passes_time_filter fm p (Some prev) idx)
    \<and> snd (apply_filters fm ps cm) = fst (filter_loop (merge_config_settings fm cm) 0 None ps [])"
proof (intro conjI impI)
  show "passes_time_filter fm p None idx"
    by (simp add: passes_time_filter_def)
  show "snd (filter_loop fm 0 None (take i ps) [])
        = (if fst (filter_loop fm 0 None (take i ps) []) = [] then None
           else Some (time_ms (last (fst (filter_loop fm 0 None (take i ps) [])))))"
    by (rule filter_loop_baseline) simp
  show "filter_loop fm 0 None (take (Suc i) ps) []
        = (if passes_time_filter fm (ps ! i) (snd (filter_loop fm 0 None (take i ps) [])) i
              \<and> passes_channel_filter fm (ps ! i) \<and> int i \<notin> manual_drops fm
           then (fst (filter_loop fm 0 None (take i ps) []) @ [ps ! i], Some (time_ms (ps ! i)))
           else filter_loop fm 0 None (take i ps) [])"
    using assms by (rule filter_loop_step)
  show "passes_time_filter fm p (Some prev) idx \<longleftrightarrow>
            \<not> ((\<exists>m. max_jump_ms (time_settings fm) = Some m
                    \<and> (if time_ms p - prev < 0 \<and> allow_wrap (time_settings fm) = Some True
                        then time_ms p - prev + 2 ^ 24 else time_ms p - prev) > m)
               \<or> ((if time_ms p - prev < 0 \<and> allow_wrap (time_settings fm) = Some True
                    then time_ms p - prev + 2 ^ 24 else time_ms p - prev) < 0
                  \<and> allow_wrap (time_settings fm) \<noteq> Some True))"
    if "\<not> time_dict_empty (time_settings fm)"
    using that by (rule passes_time_filter_iff)
  show "passes_time_filter fm p (Some prev) idx" if "time_dict_empty (time_settings fm)"
    using that by (simp add: passes_time_filter_def)
  show "snd (apply_filters fm ps cm) = fst (filter_loop (merge_config_settings fm cm) 0 None ps [])"
    by (simp add: apply_filters_def Let_def)
qed

theorem time_stage_witness:
  "filter_loop
     \<lparr>time_settings = \<lparr>max_jump_ms = Some 2000, allow_wrap = Some False\<rparr>,
      channel_limits = [], manual_drops = {}\<rparr>
     0 None [example_packet 1000, example_packet 1500, example_packet 50000] []
     = ([example_packet 1000, example_packet 1500], Some 1500)
   \<and> \<not> passes_time_filter
        \<lparr>time_settings = \<lparr>max_jump_ms = Some 2000, allow_wrap = Some False\<rparr>,
         channel_limits = [], manual_drops = {}\<rparr>
        (example_packet 50000) (Some 1500) 2
   \<and> passes_time_filter
        \<lparr>time_settings = \<lparr>max_jump_ms = Some 2000, allow_wrap = Some True\<rparr>,
         channel_limits = [], manual_drops = {}\<rparr>
        (example_packet 100) (Some 16777200) 1"
proof -
  let ?fm = "\<lparr>time_settings = \<lparr>max_jump_ms = Some 2000, allow_wrap = Some False\<rparr>,
      channel_limits = [], manual_drops = {}\<rparr>"
  let ?fw = "\<lparr>time_settings = \<lparr>max_jump_ms = Some 2000, allow_wrap = Some True\<rparr>,
      channel_limits = [], manual_drops = {}\<rparr>"
  let ?ps = "[example_packet 1000, example_packet 1500, example_packet 50000]"
  have t: "time_ms (example_packet x) = x" for x by (simp add: example_packet_def)
  have ne: "\<not> time_dict_empty (time_settings ?fm)" "\<not> time_dict_empty (time_settings ?fw)"
    by (simp_all add: time_dict_empty_def)
  have c: "passes_channel_filter ?fm p" for p by (simp add: passes_channel_filter_def)
  note a = time_stage [of 2 ?ps ?fm "example_packet 50000" 2 1500 "\<lparr>get_time_settings = \<lparr>max_jump_ms = None, allow_wrap = None\<rparr>, get_channel_limits = []\<rparr>"]
  note b = time_stage [of 0 ?ps ?fw "example_packet 100" 1 16777200 "\<lparr>get_time_settings = \<lparr>max_jump_ms = None, allow_wrap = None\<rparr>, get_channel_limits = []\<rparr>"]
  have p3: "\<not> passes_time_filter ?fm (example_packet 50000) (Some 1500) 2"
    using a ne by (simp add: t)
  have pw: "passes_time_filter ?fw (example_packet 100) (Some 16777200) 1"
    using b ne by (simp add: t)
  have two: "filter_loop ?fm 0 None (take 2 ?ps) [] = ([example_packet 1000, example_packet 1500], Some 1500)"
    by (simp add: passes_time_filter_def time_dict_empty_def t c)
  have "filter_loop ?fm 0 None (take (Suc 2) ?ps) [] = filter_loop ?fm 0 None (take 2 ?ps) []"
    using a p3 two by simp
  then have "filter_loop ?fm 0 None ?ps [] = ([example_packet 1000, example_packet 1500], Some 1500)"
    using two by simp
  then show ?thesis using p3 pw by simp
qed

text \<open>
  The claim as stated fails: with no time settings at all the time stage passes every packet,
  also one whose time lies before the baseline while wrap is not allowed.
\<close>

theorem time_stage_counterexample:
  "snd (apply_filters FilterManager_init [example_packet 1000, example_packet 500]
          \<lparr>get_time_settings = \<lparr>max_jump_ms = None, allow_wrap = None\<rparr>, get_channel_limits = []\<rparr>)
     = [example_packet 1000, example_packet 500]
   \<and> time_ms (example_packet 500) - time_ms (example_packet 1000) < 0
   \<and> allow_wrap (time_settings FilterManager_init) \<noteq> Some True
   \<and> allow_wrap (get_time_settings
        \<lparr>get_time_settings = \<lparr>max_jump_ms = None, allow_wrap = None\<rparr>, get_channel_limits = []\<rparr>)
      \<noteq> Some True"
  by (simp add: apply_filters_def merge_config_settings_def FilterManager_init_def time_dict_update_def
        passes_time_filter_def time_dict_empty_def passes_channel_filter_def example_packet_def)

subsection \<open>Reading the manual drop list\<close>

lemma digit_char:
  assumes "k < 10"
  shows "is_digit (char_of (48 + k))" and "digit_val (char_of (48 + k)) = int k"
    and "\<not> is_space (char_of (48 + k))"
    and "char_of (48 + k) \<noteq> CHR ''-''" and "char_of (48 + k) \<noteq> CHR ''+''"
    and "char_of (48 + k) \<noteq> CHR '',''"
proof -
  have o: "(of_char (char_of (48 + k)) :: nat) = 48 + k"
    using assms by simp
  show "is_digit (char_of (48 + k))" using assms by (simp add: is_digit_def o)
  show "digit_val (char_of (48 + k)) = int k" using assms by (simp add: digit_val_def)
  show "\<not> is_space (char_of (48 + k))" using assms by (simp add: is_space_def o)
  have "(of_char (char_of (48 + k)) :: nat) \<noteq> of_char CHR ''-''" unfolding o by simp
  then show "char_of (48 + k) \<noteq> CHR ''-''" by metis
  have "(of_char (char_of (48 + k)) :: nat) \<noteq> of_char CHR ''+''" unfolding o by simp
  then show "char_of (48 + k) \<noteq> CHR ''+''" by metis
  have "(of_char (char_of (48 + k)) :: nat) \<noteq> of_char CHR '',''" unfolding o by simp
  then show "char_of (48 + k) \<noteq> CHR '',''" by metis
qed

lemma decimal_digits: "decimal n \<noteq> [] \<and> (\<forall>c \<in> set (decimal n). plain_digit c)"
proof (induction n rule: decimal.induct)
  case (1 n)
  show ?case
  proof (cases "n < 10")
    case True
    then show ?thesis
      by (subst decimal.simps, subst (2) decimal.simps) (simp add: plain_digit_def digit_char)
  next
    case False
    have "n mod 10 < 10" by simp
    then have "plain_digit (char_of (48 + n mod 10))"
      by (simp only: plain_digit_def digit_char) simp
    then show ?thesis
      using False "1.IH"
      by (subst decimal.simps, subst (2) decimal.simps) simp
  qed
qed

lemma parse_digits_decimal:
  "parse_digits (decimal n @ cs) prev acc
     = parse_digits cs True (acc * 10 ^ length (decimal n) + int n)"
proof (induction n arbitrary: cs prev acc rule: decimal.induct)
  case (1 n)
  show ?case
  proof (cases "n < 10")
    case True
    then have "decimal n = [char_of (48 + n)]" by (subst decimal.simps) simp
    then show ?thesis using True by (simp add: digit_char mult.commute)
  next
    case False
    have m: "n mod 10 < 10" by simp
    have d: "decimal n = decimal (n div 10) @ [char_of (48 + n mod 10)]"
      using False by (subst decimal.simps) simp
    have "parse_digits (decimal n @ cs) prev acc
          = parse_digits (decimal (n div 10) @ (char_of (48 + n mod 10) # cs)) prev acc"
      by (simp add: d)
    also have "\<dots> = parse_digits (char_of (48 + n mod 10) # cs) True
                       (acc * 10 ^ length (decimal (n div 10)) + int (n div 10))"
      using False by (rule "1.IH")
    also have "\<dots> = parse_digits cs True
                       (10 * (acc * 10 ^ length (decimal (n div 10)) + int (n div 10)) + int (n mod 10))"
      using m by (simp add: digit_char)
    also have "10 * (acc * 10 ^ length (decimal (n div 10)) + int (n div 10)) + int (n mod 10)
               = acc * 10 ^ length (decimal n) + int n"
    proof -
      have "int n = 10 * int (n div 10) + int (n mod 10)"
        by (simp add: zdiv_int zmod_int)
      then show ?thesis by (simp add: d algebra_simps)
    qed
    finally show ?thesis .
  qed
qed

lemma strip_id:
  assumes "s \<noteq> []" and "\<not> is_space (hd s)" and "\<not> is_space (last s)"
  shows "strip s = s"
proof -
  have "dropWhile is_space s = s" using assms by (simp add: dropWhile_eq_self_iff)
  moreover have "dropWhile is_space (rev s) = rev s"
    using assms by (simp add: dropWhile_eq_self_iff hd_rev)
  ultimately show ?thesis by (simp add: strip_def)
qed

lemma strip_Nil: "strip [] = []"
  by (simp add: strip_def)

lemma strip_decimal: "strip (decimal n) = decimal n"
  using decimal_digits [of n] by (intro strip_id) (auto simp: plain_digit_def)

lemma py_int_decimal: "py_int (decimal n) = Some (int n)"
proof -
  obtain c cs where d: "decimal n = c # cs"
    using decimal_digits [of n] by (cases "decimal n") auto
  then have c: "plain_digit c" using decimal_digits [of n] by simp
  have "parse_digits (decimal n @ []) False 0 = parse_digits [] True (0 * 10 ^ length (decimal n) + int n)"
    by (rule parse_digits_decimal)
  then have "parse_digits (c # cs) False 0 = Some (int n)" by (simp add: d)
  then show ?thesis using c strip_decimal [of n] by (simp add: py_int_def d plain_digit_def)
qed

lemma decimal_no_dash: "CHR ''-'' \<notin> set (decimal n)"
  using decimal_digits [of n] by (auto simp: plain_digit_def)

lemma decimal_no_comma: "CHR '','' \<notin> set (decimal n)"
  using decimal_digits [of n] by (auto simp: plain_digit_def)

lemma decimal_ends:
  "decimal n \<noteq> []" "\<not> is_space (hd (decimal n))" "\<not> is_space (last (decimal n))"
  using decimal_digits [of n] by (auto simp: plain_digit_def)

lemma parse_item_literal: "parse_item drops (decimal n) = insert (int n) drops"
  using decimal_ends(1) [of n]
  by (simp add: parse_item_def strip_decimal decimal_no_dash py_int_decimal)

lemma parse_item_range:
  "parse_item drops (decimal a @ CHR ''-'' # decimal b) = drops \<union> {int a..int b}"
proof -
  let ?item = "decimal a @ CHR ''-'' # decimal b"
  have s: "strip ?item = ?item"
    using decimal_ends [of a] decimal_ends [of b] by (intro strip_id) simp_all
  have t: "takeWhile (\<lambda>c. c \<noteq> CHR ''-'') ?item = decimal a"
    using decimal_no_dash [of a] by (auto simp: takeWhile_tail)
  have d: "dropWhile (\<lambda>c. c \<noteq> CHR ''-'') ?item = CHR ''-'' # decimal b"
    using decimal_no_dash [of a] by (auto simp: dropWhile_append3)
  show ?thesis
    unfolding parse_item_def s Let_def t d
    by (simp add: strip_decimal py_int_decimal)
qed

lemma parse_item_token: "parse_item drops (render_token t) = drops \<union> token_positions t"
  by (cases t) (simp_all add: parse_item_literal parse_item_range)

lemma render_no_comma: "CHR '','' \<notin> set (render_token t)"
  by (cases t) (simp_all add: decimal_no_comma)

lemma split_on_none: "sep \<notin> set s \<Longrightarrow> split_on sep s = [s]"
  by (induction s) auto

lemma split_on_append:
  "sep \<notin> set s \<Longrightarrow> split_on sep (s @ sep # rest) = s # split_on sep rest"
  by (induction s) auto

lemma split_on_join:
  "ss \<noteq> [] \<Longrightarrow> \<forall>s \<in> set ss. CHR '','' \<notin> set s \<Longrightarrow> split_on CHR '','' (join_comma ss) = ss"
proof (induction ss rule: join_comma.induct)
  case 1
  then show ?case by simp
next
  case (2 s)
  then show ?case by (simp add: split_on_none)
next
  case (3 s t ss)
  then show ?case by (simp add: split_on_append)
qed

lemma fold_parse_item:
  "fold (\<lambda>item drops. parse_item drops item) (map render_token ts) drops
     = drops \<union> (\<Union>t \<in> set ts. token_positions t)"
  by (induction ts arbitrary: drops) (auto simp: parse_item_token)

lemma parse_packet_list_tokens:
  "parse_packet_list (join_comma (map render_token ts)) = (\<Union>t \<in> set ts. token_positions t)"
proof (cases "ts = []")
  case True
  then show ?thesis by (simp add: parse_packet_list_def parse_item_def strip_Nil)
next
  case False
  have "split_on CHR '','' (join_comma (map render_token ts)) = map render_token ts"
    using False by (intro split_on_join) (simp_all add: render_no_comma)
  then show ?thesis by (simp add: parse_packet_list_def fold_parse_item)
qed

lemma passes_time_filter_off:
  "time_dict_empty (time_settings fm) \<Longrightarrow> passes_time_filter fm p prev idx"
  by (cases prev) (simp_all add: passes_time_filter_def)

lemma passes_channel_filter_off:
  "channel_limits fm = [] \<Longrightarrow> passes_channel_filter fm p"
  by (simp add: passes_channel_filter_def)

lemma filter_loop_manual_only:
  assumes "time_dict_empty (time_settings fm)" and "channel_limits fm = []"
  shows "fst (filter_loop fm idx prev ps [])
         = map snd (filter (\<lambda>(i, p). int i \<notin> manual_drops fm) (enumerate idx ps))"
proof (induction ps arbitrary: idx prev)
  case Nil
  show ?case by simp
next
  case (Cons p ps)
  have "fst (filter_loop fm (Suc idx) (Some (time_ms p)) ps [p])
        = p # fst (filter_loop fm (Suc idx) (Some (time_ms p)) ps [])"
    using filter_loop_acc [of fm "Suc idx" "Some (time_ms p)" ps "[p]"] by simp
  then show ?case
    using assms by (simp add: passes_time_filter_off passes_channel_filter_off Cons.IH)
qed

text \<open>
  C9. In the loop of \<open>apply_filters\<close> the index tested against \<open>manual_drops\<close> is the
  position of the packet in the input sequence: the packet at position \<open>i\<close> of the input is
  dropped when \<open>i\<close> is in the set, whatever was dropped before it, and is kept when \<open>i\<close> is
  not in the set and the packet passes the two earlier stages. The set read from a drop list
  of tokens is the union of the tokens' positions, a literal giving its index and a range
  \<open>a-b\<close> every position from \<open>a\<close> to \<open>b\<close>; merging the configuration leaves it as it is. The
  packets that are kept come out in the order of the input; with the two earlier stages
  switched off they are exactly the packets whose position is not in the set.
\<close>

theorem manual_stage:
  assumes "i < length ps"
  shows "(int i \<in> manual_drops fm \<longrightarrow>
            filter_loop fm 0 None (take (Suc i) ps) [] = filter_loop fm 0 None (take i ps) [])
    \<and> (int i \<notin> manual_drops fm \<longrightarrow>
          passes_time_filter fm (ps ! i) (snd (filter_loop fm 0 None (take i ps) [])) i \<longrightarrow>
          passes_channel_filter fm (ps ! i) \<longrightarrow>
            fst (filter_loop fm 0 None (take (Suc i) ps) [])
              = fst (filter_loop fm 0 None (take i ps) []) @ [ps ! i])
    \<and> subseq (fst (filter_loop fm 0 None ps [])) ps
    \<and> (time_dict_empty (time_settings fm) \<longrightarrow> channel_limits fm = [] \<longrightarrow>
          fst (filter_loop fm 0 None ps [])
            = map snd (filter (\<lambda>(idx, p). int idx \<notin> manual_drops fm) (enumerate 0 ps)))
    \<and> manual_drops (load_drop_packets fm (join_comma (map render_token ts)))
          = (\<Union>t \<in> set ts. token_positions t)
    \<and> manual_drops (merge_config_settings fm cm) = manual_drops fm
    \<and> snd (apply_filters fm ps cm) = fst (filter_loop (merge_config_settings fm cm) 0 None ps [])"
proof (intro conjI impI)
  note step = filter_loop_step [OF assms, of fm]
  show "filter_loop fm 0 None (take (Suc i) ps) [] = filter_loop fm 0 None (take i ps) []"
    if "int i \<in> manual_drops fm"
    using that by (simp add: step)
  show "fst (filter_loop fm 0 None (take (Suc i) ps) [])
              = fst (filter_loop fm 0 None (take i ps) []) @ [ps ! i]"
    if "int i \<notin> manual_drops fm"
      and "passes_time_filter fm (ps ! i) (snd (filter_loop fm 0 None (take i ps) [])) i"
      and "passes_channel_filter fm (ps ! i)"
    using that by (simp add: step)
  show "subseq (fst (filter_loop fm 0 None ps [])) ps"
    by (rule filter_loop_subseq)
  show "fst (filter_loop fm 0 None ps [])
            = map snd (filter (\<lambda>(idx, p). int idx \<notin> manual_drops fm) (enumerate 0 ps))"
    if "time_dict_empty (time_settings fm)" and "channel_limits fm = []"
    using that by (rule filter_loop_manual_only)
  show "manual_drops (load_drop_packets fm (join_comma (map render_token ts)))
          = (\<Union>t \<in> set ts. token_positions t)"
    by (simp add: load_drop_packets_def parse_packet_list_tokens)
  show "manual_drops (merge_config_settings fm cm) = manual_drops fm"
    by (simp add: merge_config_settings_def)
  show "snd (apply_filters fm ps cm) = fst (filter_loop (merge_config_settings fm cm) 0 None ps [])"
    by (simp add: apply_filters_def Let_def)
qed

theorem manual_stage_witness:
  "join_comma (map render_token [Literal 2, Range 5 7]) = ''2,5-7''
   \<and> manual_drops (load_drop_packets FilterManager_init ''2,5-7'') = {2, 5, 6, 7}
   \<and> fst (filter_loop (load_drop_packets FilterManager_init ''2,5-7'') 0 None
            (map example_packet [10, 20, 30, 40, 50, 60, 70, 80, 90, 100]) [])
       = map example_packet [10, 20, 40, 50, 90, 100]
   \<and> filter_loop (load_drop_packets FilterManager_init ''2,5-7'') 0 None
        (take 3 (map example_packet [10, 20, 30, 40, 50, 60, 70, 80, 90, 100])) []
       = filter_loop (load_drop_packets FilterManager_init ''2,5-7'') 0 None
        (take 2 (map example_packet [10, 20, 30, 40, 50, 60, 70, 80, 90, 100])) []"
proof -
  let ?fm = "load_drop_packets FilterManager_init ''2,5-7''"
  let ?ps = "map example_packet [10, 20, 30, 40, 50, 60, 70, 80, 90, 100]"
  have j: "join_comma (map render_token [Literal 2, Range 5 7]) = ''2,5-7''"
    by code_simp
  note a = manual_stage [of 2 ?ps ?fm "[Literal 2, Range 5 7]"
            "\<lparr>get_time_settings = \<lparr>max_jump_ms = None, allow_wrap = None\<rparr>, get_channel_limits = []\<rparr>"]
  have len: "2 < length ?ps" by simp
  note c1 = a [OF len, THEN conjunct1]
  note c4 = a [OF len, THEN conjunct2, THEN conjunct2, THEN conjunct2, THEN conjunct1]
  note c5 = a [OF len, THEN conjunct2, THEN conjunct2, THEN conjunct2, THEN conjunct2, THEN conjunct1]
  have "manual_drops (load_drop_packets ?fm ''2,5-7'') = {2} \<union> {5..7}"
    using c5 unfolding j by simp
  then have "manual_drops ?fm = {2} \<union> {5..7}"
    by (simp add: load_drop_packets_def)
  also have "{2} \<union> {5..7} = {2, 5, 6, 7::int}" by auto
  finally have m: "manual_drops ?fm = {2, 5, 6, 7}" .
  have off: "time_dict_empty (time_settings ?fm)" "channel_limits ?fm = []"
    by (simp_all add: load_drop_packets_def FilterManager_init_def time_dict_empty_def)
  have "fst (filter_loop ?fm 0 None ?ps [])
        = map snd (filter (\<lambda>(idx, p). int idx \<notin> manual_drops ?fm) (enumerate 0 ?ps))"
    using c4 off by (rule mp [OF mp])
  also have "\<dots> = map example_packet [10, 20, 40, 50, 90, 100]"
    unfolding m by (simp add: enumerate_eq_zip upt_rec)
  finally have k: "fst (filter_loop ?fm 0 None ?ps []) = map example_packet [10, 20, 40, 50, 90, 100]" .
  have "int 2 \<in> manual_drops ?fm" unfolding m by simp
  with c1 have "filter_loop ?fm 0 None (take (Suc 2) ?ps) [] = filter_loop ?fm 0 None (take 2 ?ps) []"
    by (rule mp)
  moreover have "Suc 2 = 3" by simp
  ultimately have d: "filter_loop ?fm 0 None (take 3 ?ps) [] = filter_loop ?fm 0 None (take 2 ?ps) []"
    by (simp only:)
  from j m k d show ?thesis by (intro conjI)
qed

end
